theory Spec2Isabelle
  imports Complex_Main
begin

section \<open>The Kuramoto ring simulator (kuramoto.js)\<close>

text \<open>
  The engine is the class \<open>KuramotoSimulator\<close>: a ring of \<open>N\<close> phase oscillators with
  \<open>d\<theta>\<^sub>i/dt = \<omega>\<^sub>i + (K/2) (sin (\<theta>\<^sub>i\<^sub>+\<^sub>1 - \<theta>\<^sub>i) + sin (\<theta>\<^sub>i\<^sub>-\<^sub>1 - \<theta>\<^sub>i))\<close>.

  Conventions of the embedding.
  \<^item> A JavaScript number that holds a phase, a frequency, a time step or the coupling is a
    \<open>real\<close>, and \<open>Math.PI\<close>, \<open>Math.sin\<close>, \<open>Math.cos\<close>, \<open>Math.sqrt\<close> are \<open>pi\<close>, \<open>sin\<close>,
    \<open>cos\<close>, \<open>sqrt\<close>: the arithmetic is exact. Rounding of IEEE doubles, \<open>NaN\<close> and the
    infinities are outside the model.
  \<^item> A \<open>Float64Array\<close> is a \<open>real list\<close>; \<open>new Float64Array(N)\<close> is \<open>replicate N 0\<close>. The
    number of oscillators is a length of such an array, hence a \<open>nat\<close>.
  \<^item> A \<open>for (let i = 0; i < N; i++)\<close> loop that assigns to \<open>a[i]\<close> is a \<open>fold\<close> over
    \<open>[0..<N]\<close> of list updates, in the order of the source.
  \<^item> \<open>Math.random()\<close> is an explicit source of numbers: a function \<open>g\<close> whose value \<open>g n\<close>
    is the result of the \<open>n\<close>-th coming call. An operation that draws \<open>k\<close> numbers returns
    the source advanced by \<open>k\<close>.
  \<^item> A method that mutates \<open>this\<close> takes the simulator and returns the updated one.
\<close>

subsection \<open>Numbers\<close>

type_synonym rng = "nat \<Rightarrow> real"

definition advance :: "nat \<Rightarrow> rng \<Rightarrow> rng" where
  "advance k g = (\<lambda>n. g (n + k))"

text \<open>The remainder operator \<open>x % y\<close> of JavaScript truncates the quotient towards zero, so
  the result has the sign of \<open>x\<close>.\<close>

definition trunc_real :: "real \<Rightarrow> int" where
  "trunc_real x = (if 0 \<le> x then \<lfloor>x\<rfloor> else \<lceil>x\<rceil>)"

definition jsmod :: "real \<Rightarrow> real \<Rightarrow> real" where
  "jsmod x y = x - y * of_int (trunc_real (x / y))"

definition TWO_PI :: real where
  "TWO_PI = 2 * pi"

text \<open>\<open>Math.round\<close> rounds to the nearest integer, a tie towards \<open>+\<infinity>\<close>.\<close>

definition Math_round :: "real \<Rightarrow> int" where
  "Math_round x = \<lfloor>x + 1 / 2\<rfloor>"

text \<open>\<open>Math.atan2(y, x)\<close>, the angle of the point \<open>(x, y)\<close> in \<open>[-\<pi>, \<pi>]\<close>.\<close>

definition Math_atan2 :: "real \<Rightarrow> real \<Rightarrow> real" where
  "Math_atan2 y x =
     (if 0 < x then arctan (y / x)
      else if x < 0 \<and> 0 \<le> y then arctan (y / x) + pi
      else if x < 0 \<and> y < 0 then arctan (y / x) - pi
      else if 0 < y then pi / 2
      else if y < 0 then - pi / 2
      else 0)"

subsection \<open>State\<close>

record simulator =
  N :: nat
  phases :: "real list"
  frequencies :: "real list"
  dPhases :: "real list"
  K :: real

subsection \<open>Frequencies and initial phases\<close>

definition setFrequencies :: "string \<Rightarrow> simulator \<Rightarrow> rng \<Rightarrow> simulator \<times> rng" where
  "setFrequencies type s g =
     (if type = ''identical'' then
        (s\<lparr>frequencies := map (\<lambda>_. 1) (frequencies s)\<rparr>, g)
      else if type = ''random'' then
        (s\<lparr>frequencies :=
             fold (\<lambda>i a. a[i := 0.8 + g i * 0.4]) [0..<N s] (frequencies s)\<rparr>,
         advance (N s) g)
      else if type = ''twoGroups'' then
        (s\<lparr>frequencies :=
             fold (\<lambda>i a. a[i := (if real i < real (N s) / 2 then 0.8 else 1.2)])
               [0..<N s] (frequencies s)\<rparr>,
         g)
      else (s, g))"

definition normalize1 :: "real \<Rightarrow> real" where
  "normalize1 x = jsmod (jsmod x TWO_PI + TWO_PI) TWO_PI"

definition normalizePhases :: "simulator \<Rightarrow> simulator" where
  "normalizePhases s =
     s\<lparr>phases := fold (\<lambda>i a. a[i := normalize1 (a ! i)]) [0..<N s] (phases s)\<rparr>"

definition setInitialPhases :: "string \<Rightarrow> simulator \<Rightarrow> rng \<Rightarrow> simulator \<times> rng" where
  "setInitialPhases type s g =
     (let (s1, g1) =
        (if type = ''random'' then
           (s\<lparr>phases := fold (\<lambda>i a. a[i := g i * TWO_PI]) [0..<N s] (phases s)\<rparr>,
            advance (N s) g)
         else if type = ''quasiSync'' then
           (let center = g 0 * TWO_PI in
            (s\<lparr>phases :=
                 fold (\<lambda>i a. a[i := center + (g (Suc i) - 0.5) * 0.3]) [0..<N s] (phases s)\<rparr>,
             advance (Suc (N s)) g))
         else if type = ''twisted1'' then
           (s\<lparr>phases :=
                fold (\<lambda>i a. a[i := (TWO_PI * real i) / real (N s)]) [0..<N s] (phases s)\<rparr>,
            g)
         else if type = ''twisted2'' then
           (s\<lparr>phases :=
                fold (\<lambda>i a. a[i := (4 * pi * real i) / real (N s)]) [0..<N s] (phases s)\<rparr>,
            g)
         else (s, g))
      in (normalizePhases s1, g1))"

definition constructor :: "nat \<Rightarrow> rng \<Rightarrow> simulator \<times> rng" where
  "constructor n g =
     (let s0 = \<lparr>N = n, phases = replicate n 0, frequencies = replicate n 0,
                dPhases = replicate n 0, K = 1\<rparr>;
          (s1, g1) = setFrequencies ''identical'' s0 g
      in setInitialPhases ''random'' s1 g1)"

definition perturb :: "real \<Rightarrow> simulator \<Rightarrow> rng \<Rightarrow> simulator \<times> rng" where
  "perturb intensity s g =
     (normalizePhases
        (s\<lparr>phases :=
             fold (\<lambda>i a. a[i := a ! i + (g i - 0.5) * 2 * intensity * pi]) [0..<N s]
               (phases s)\<rparr>),
      advance (N s) g)"

definition setCoupling :: "real \<Rightarrow> simulator \<Rightarrow> simulator" where
  "setCoupling k s = s\<lparr>K := max 0 k\<rparr>"

definition getPhases :: "simulator \<Rightarrow> real list" where
  "getPhases s = phases s"

subsection \<open>Integration\<close>

definition computeDerivativesFor :: "simulator \<Rightarrow> real list \<Rightarrow> real list \<Rightarrow> real list" where
  "computeDerivativesFor s ph output =
     (let n = N s; halfK = K s / 2 in
      fold (\<lambda>i out.
              let iPrev = (i + n - 1) mod n;
                  iNext = (i + 1) mod n;
                  coupling = halfK * (sin (ph ! iNext - ph ! i) + sin (ph ! iPrev - ph ! i))
              in out[i := frequencies s ! i + coupling])
        [0..<n] output)"

definition computeDerivatives :: "simulator \<Rightarrow> simulator" where
  "computeDerivatives s =
     (let n = N s; halfK = K s / 2 in
      s\<lparr>dPhases :=
          fold (\<lambda>i d.
                  let iPrev = (i + n - 1) mod n;
                      iNext = (i + 1) mod n;
                      coupling = halfK * (sin (phases s ! iNext - phases s ! i)
                                          + sin (phases s ! iPrev - phases s ! i))
                  in d[i := frequencies s ! i + coupling])
            [0..<n] (dPhases s)\<rparr>)"

definition step :: "real \<Rightarrow> simulator \<Rightarrow> simulator" where
  "step dt s =
     (let s1 = computeDerivatives s;
          s2 = s1\<lparr>phases :=
                    fold (\<lambda>i a. a[i := a ! i + dPhases s1 ! i * dt]) [0..<N s1] (phases s1)\<rparr>
      in normalizePhases s2)"

definition stepRK4 :: "real \<Rightarrow> simulator \<Rightarrow> simulator" where
  "stepRK4 dt s =
     (let n = N s;
          s1 = computeDerivatives s;
          k1 = dPhases s1;
          temp = fold (\<lambda>i t. t[i := phases s1 ! i + 0.5 * dt * k1 ! i]) [0..<n] (replicate n 0);
          k2 = computeDerivativesFor s1 temp (replicate n 0);
          temp = fold (\<lambda>i t. t[i := phases s1 ! i + 0.5 * dt * k2 ! i]) [0..<n] temp;
          k3 = computeDerivativesFor s1 temp (replicate n 0);
          temp = fold (\<lambda>i t. t[i := phases s1 ! i + dt * k3 ! i]) [0..<n] temp;
          k4 = computeDerivativesFor s1 temp (replicate n 0);
          s2 = s1\<lparr>phases :=
                    fold (\<lambda>i a. a[i := a ! i + (dt / 6) * (k1 ! i + 2 * k2 ! i + 2 * k3 ! i + k4 ! i)])
                      [0..<n] (phases s1)\<rparr>
      in normalizePhases s2)"

subsection \<open>Diagnostics\<close>

definition getOrderParameter :: "simulator \<Rightarrow> real \<times> real" where
  "getOrderParameter s =
     (let sumCos = fold (\<lambda>i acc. acc + cos (phases s ! i)) [0..<N s] 0;
          sumSin = fold (\<lambda>i acc. acc + sin (phases s ! i)) [0..<N s] 0;
          sumCos = sumCos / real (N s);
          sumSin = sumSin / real (N s);
          r = sqrt (sumCos * sumCos + sumSin * sumSin);
          psi = Math_atan2 sumSin sumCos
      in (r, psi))"

text \<open>The two \<open>while\<close> loops that bring a phase difference back into \<open>[-\<pi>, \<pi>]\<close>.\<close>

function wrap_down :: "real \<Rightarrow> real" where
  "wrap_down d = (if d > pi then wrap_down (d - TWO_PI) else d)"
  by pat_completeness auto
termination
proof (relation "measure (\<lambda>d. nat \<lceil>(d - pi) / (2 * pi)\<rceil>)")
  show "wf (measure (\<lambda>d. nat \<lceil>(d - pi) / (2 * pi)\<rceil>))" by simp
next
  fix d :: real
  assume d: "pi < d"
  have e: "(d - TWO_PI - pi) / (2 * pi) = (d - pi) / (2 * pi) - 1"
    by (simp add: TWO_PI_def field_simps)
  have "0 < (d - pi) / (2 * pi)" using d by simp
  then have "0 < \<lceil>(d - pi) / (2 * pi)\<rceil>" by linarith
  then show "(d - TWO_PI, d) \<in> measure (\<lambda>d. nat \<lceil>(d - pi) / (2 * pi)\<rceil>)"
    by (simp add: e)
qed

function wrap_up :: "real \<Rightarrow> real" where
  "wrap_up d = (if d < - pi then wrap_up (d + TWO_PI) else d)"
  by pat_completeness auto
termination
proof (relation "measure (\<lambda>d. nat \<lceil>(- pi - d) / (2 * pi)\<rceil>)")
  show "wf (measure (\<lambda>d. nat \<lceil>(- pi - d) / (2 * pi)\<rceil>))" by simp
next
  fix d :: real
  assume d: "d < - pi"
  have e: "(- pi - (d + TWO_PI)) / (2 * pi) = (- pi - d) / (2 * pi) - 1"
    by (simp add: TWO_PI_def field_simps)
  have "0 < (- pi - d) / (2 * pi)" using d by simp
  then have "0 < \<lceil>(- pi - d) / (2 * pi)\<rceil>" by linarith
  then show "(d + TWO_PI, d) \<in> measure (\<lambda>d. nat \<lceil>(- pi - d) / (2 * pi)\<rceil>)"
    by (simp add: e)
qed

declare wrap_down.simps [simp del] wrap_up.simps [simp del]

definition getWindingNumber :: "simulator \<Rightarrow> int" where
  "getWindingNumber s =
     (let totalWinding =
            fold (\<lambda>i total.
                    let iNext = (i + 1) mod N s;
                        diff = phases s ! iNext - phases s ! i;
                        diff = wrap_down diff;
                        diff = wrap_up diff
                    in total + diff)
              [0..<N s] 0
      in Math_round (totalWinding / TWO_PI))"

definition getPhaseVariance :: "simulator \<Rightarrow> real" where
  "getPhaseVariance s = (let (r, psi) = getOrderParameter s in 1 - r)"

text \<open>The label of \<open>classifyState\<close> is a string built from a fixed text and, in two cases,
  the numbers \<open>q\<close> and \<open>r\<close>; the datatype keeps the text as the constructor and the numbers
  as its arguments: \<open>Synchronise\<close> is \<open>'Synchronis\'e (q=0)'\<close>, \<open>Twisted q\<close> is
  \<open>`Twisted (q=${q})`\<close>, \<open>Desynchronise\<close> is \<open>'D\'esynchronis\'e'\<close> and \<open>Partiel r q\<close> is
  \<open>`Partiel (r=${r.toFixed(2)}, q=${q})`\<close>.\<close>

datatype label = Synchronise | Twisted int | Desynchronise | Partiel real int

definition classifyState :: "simulator \<Rightarrow> label" where
  "classifyState s =
     (let (r, psi) = getOrderParameter s;
          q = getWindingNumber s
      in if r > 0.9 then Synchronise
         else if \<bar>q\<bar> = 1 \<and> r < 0.5 then Twisted q
         else if \<bar>q\<bar> = 2 \<and> r < 0.3 then Twisted q
         else if r < 0.3 then Desynchronise
         else Partiel r q)"

section \<open>The basin experiment (experiments.js)\<close>

text \<open>\<open>Experiments.run\<close> simulates \<open>numSims\<close> fresh rings and counts where each one ends.
  Its writes to the page (the progress line, the bar chart) and the pause it takes every
  tenth simulation do not touch the counters and are left out; the returned record is
  the one stored in \<open>this.results\<close>.\<close>

record results =
  sync :: int
  twisted1 :: int
  twisted2 :: int
  other :: int
  total :: int

text \<open>One pass through the body of the loop, up to the end of the simulation.\<close>

definition run_trial :: "real \<Rightarrow> nat \<Rightarrow> int \<Rightarrow> rng \<Rightarrow> simulator \<times> rng" where
  "run_trial k n steps g =
     (let (sim, g1) = constructor n g;
          sim = setCoupling k sim;
          (sim, g2) = setFrequencies ''identical'' sim g1;
          (sim, g3) = setInitialPhases ''random'' sim g2;
          sim = (step 0.02 ^^ nat steps) sim
      in (sim, g3))"

text \<open>The classification at the end of the body, applied to the counters.\<close>

definition count_trial :: "simulator \<Rightarrow> results \<Rightarrow> results" where
  "count_trial sim res =
     (let (r, psi) = getOrderParameter sim;
          q = getWindingNumber sim
      in if r > 0.85 then res\<lparr>sync := sync res + 1\<rparr>
         else if \<bar>q\<bar> = 1 then res\<lparr>twisted1 := twisted1 res + 1\<rparr>
         else if \<bar>q\<bar> = 2 then res\<lparr>twisted2 := twisted2 res + 1\<rparr>
         else res\<lparr>other := other res + 1\<rparr>)"

function run_loop :: "int \<Rightarrow> int \<Rightarrow> real \<Rightarrow> nat \<Rightarrow> int \<Rightarrow> results \<Rightarrow> rng \<Rightarrow> results \<times> rng" where
  "run_loop i numSims k n steps res g =
     (if i < numSims then
        (let (sim, g1) = run_trial k n steps g
         in run_loop (i + 1) numSims k n steps (count_trial sim res) g1)
      else (res, g))"
  by pat_completeness auto
termination
  by (relation "measure (\<lambda>(i, numSims, k, n, steps, res, g). nat (numSims - i))") auto

declare run_loop.simps [simp del]

definition run :: "int \<Rightarrow> real \<Rightarrow> nat \<Rightarrow> int \<Rightarrow> rng \<Rightarrow> results \<times> rng" where
  "run numSims k n steps g =
     run_loop 0 numSims k n steps
       \<lparr>sync = 0, twisted1 = 0, twisted2 = 0, other = 0, total = numSims\<rparr> g"

section \<open>Invariants and call sequences\<close>

text \<open>The three arrays of a simulator have length \<open>N\<close>, and every phase is in \<open>[0, 2\<pi>)\<close>.\<close>

definition lengths_ok :: "simulator \<Rightarrow> bool" where
  "lengths_ok s \<longleftrightarrow> length (phases s) = N s \<and> length (frequencies s) = N s \<and> length (dPhases s) = N s"

definition phases_ok :: "simulator \<Rightarrow> bool" where
  "phases_ok s \<longleftrightarrow> (\<forall>i<length (phases s). 0 \<le> phases s ! i \<and> phases s ! i < TWO_PI)"

text \<open>A caller's use of a simulator: the constructor, then any finite sequence of calls of
  its mutating methods, each drawing its random numbers from the source the previous one
  left.\<close>

datatype call =
  SetFrequencies string
| SetInitialPhases string
| Perturb real
| SetCoupling real
| Step real
| StepRK4 real

fun apply_call :: "call \<Rightarrow> simulator \<times> rng \<Rightarrow> simulator \<times> rng" where
  "apply_call (SetFrequencies type) (s, g) = setFrequencies type s g"
| "apply_call (SetInitialPhases type) (s, g) = setInitialPhases type s g"
| "apply_call (Perturb intensity) (s, g) = perturb intensity s g"
| "apply_call (SetCoupling k) (s, g) = (setCoupling k s, g)"
| "apply_call (Step dt) (s, g) = (step dt s, g)"
| "apply_call (StepRK4 dt) (s, g) = (stepRK4 dt s, g)"

definition run_calls :: "nat \<Rightarrow> rng \<Rightarrow> call list \<Rightarrow> simulator \<times> rng" where
  "run_calls n g cs = fold apply_call cs (constructor n g)"

text \<open>The ring at the end of the simulation of trial \<open>j\<close> (counted from 0) of an experiment
  that started with the source \<open>g\<close>: each trial draws \<open>2 N\<close> numbers, \<open>N\<close> in the constructor and
  \<open>N\<close> in \<open>setInitialPhases('random')\<close>.\<close>

definition trial_final :: "real \<Rightarrow> nat \<Rightarrow> int \<Rightarrow> rng \<Rightarrow> nat \<Rightarrow> simulator" where
  "trial_final k n steps g j = fst (run_trial k n steps (advance (2 * n * j) g))"

text \<open>A source of random numbers for concrete runs: every draw returns \<open>c\<close>.\<close>

definition const_rng :: "real \<Rightarrow> rng" where
  "const_rng c = (\<lambda>n. c)"

text \<open>The two sums of \<open>getOrderParameter\<close>, before the division by \<open>N\<close>.\<close>

definition sumCos :: "simulator \<Rightarrow> real" where
  "sumCos s = (\<Sum>i<N s. cos (phases s ! i))"

definition sumSin :: "simulator \<Rightarrow> real" where
  "sumSin s = (\<Sum>i<N s. sin (phases s ! i))"

section \<open>Loops over an array\<close>

lemma fold_update_prefix:
  "k \<le> length a \<Longrightarrow>
   fold (\<lambda>i a. a[i := f i (a ! i)]) [0..<k] a = map (\<lambda>i. f i (a ! i)) [0..<k] @ drop k a"
proof (induction k)
  case 0
  then show ?case by simp
next
  case (Suc k)
  then have k: "k < length a" by simp
  have d: "drop k a = a ! k # drop (Suc k) a"
    using k by (simp add: Cons_nth_drop_Suc)
  show ?case
    using Suc.IH k by (simp add: d list_update_append nth_append)
qed

lemma fold_update_map:
  "length a = n \<Longrightarrow>
   fold (\<lambda>i a. a[i := f i (a ! i)]) [0..<n] a = map (\<lambda>i. f i (a ! i)) [0..<n]"
  using fold_update_prefix [of n a f] by simp

lemma fold_assign_map:
  "length a = n \<Longrightarrow> fold (\<lambda>i a. a[i := f i]) [0..<n] a = map f [0..<n]"
  using fold_update_map [of a n "\<lambda>i _. f i"] by simp

lemma TWO_PI_pos: "0 < TWO_PI"
  by (simp add: TWO_PI_def)

lemma jsmod_nonneg:
  assumes "0 < y" "0 \<le> x"
  shows "jsmod x y = x - y * of_int \<lfloor>x / y\<rfloor>"
  using assms by (simp add: jsmod_def trunc_real_def)

lemma jsmod_neg:
  assumes "0 < y" "x < 0"
  shows "jsmod x y = x - y * of_int \<lceil>x / y\<rceil>"
proof -
  have "x / y < 0" using assms by (simp add: divide_neg_pos)
  then show ?thesis by (simp add: jsmod_def trunc_real_def)
qed

lemma floor_mod_bounds:
  fixes x y :: real
  assumes "0 < y"
  shows "0 \<le> x - y * of_int \<lfloor>x / y\<rfloor>" "x - y * of_int \<lfloor>x / y\<rfloor> < y"
proof -
  have "y * of_int \<lfloor>x / y\<rfloor> \<le> y * (x / y)"
    using assms by (intro mult_left_mono) simp_all
  then have "y * of_int \<lfloor>x / y\<rfloor> \<le> x" using assms by simp
  then show "0 \<le> x - y * of_int \<lfloor>x / y\<rfloor>" by simp
  have "y * (x / y) < y * (of_int \<lfloor>x / y\<rfloor> + 1)"
    using assms by (intro mult_strict_left_mono) linarith+
  then have "x < y * (of_int \<lfloor>x / y\<rfloor> + 1)" using assms by simp
  then show "x - y * of_int \<lfloor>x / y\<rfloor> < y" by (simp add: algebra_simps)
qed

lemma normalize1_floor: "normalize1 x = x - TWO_PI * of_int \<lfloor>x / TWO_PI\<rfloor>"
proof -
  define T where "T = TWO_PI"
  have T: "0 < T" by (simp add: T_def TWO_PI_pos)
  define m where "m = jsmod x T"
  show ?thesis
  proof (cases "0 \<le> x")
    case True
    then have m: "m = x - T * of_int \<lfloor>x / T\<rfloor>" by (simp add: m_def jsmod_nonneg T)
    have b: "0 \<le> m" "m < T" using floor_mod_bounds [OF T, of x] by (simp_all add: m)
    have "\<lfloor>(m + T) / T\<rfloor> = 1"
    proof -
      have "(m + T) / T = m / T + 1" using T by (simp add: field_simps)
      moreover have "0 \<le> m / T" "m / T < 1" using b T by simp_all
      ultimately show ?thesis by linarith
    qed
    then have "jsmod (m + T) T = m" using b T by (simp add: jsmod_nonneg)
    then show ?thesis by (simp add: normalize1_def m_def [symmetric] T_def [symmetric] m)
  next
    case False
    then have neg: "x < 0" by simp
    then have m: "m = x - T * of_int \<lceil>x / T\<rceil>" by (simp add: m_def jsmod_neg T)
    show ?thesis
    proof (cases "of_int \<lfloor>x / T\<rfloor> = x / T")
      case True
      then have c: "\<lceil>x / T\<rceil> = \<lfloor>x / T\<rfloor>" by (metis ceiling_of_int floor_of_int)
      have "T * of_int \<lfloor>x / T\<rfloor> = T * (x / T)" by (simp only: True)
      then have z: "x - T * of_int \<lfloor>x / T\<rfloor> = 0" using T by simp
      then have "m = 0" by (simp add: m c)
      moreover have "jsmod T T = 0" using T by (simp add: jsmod_def trunc_real_def)
      ultimately show ?thesis using z by (simp add: normalize1_def m_def [symmetric] T_def [symmetric])
    next
      case False
      then have c: "\<lceil>x / T\<rceil> = \<lfloor>x / T\<rfloor> + 1"
        by (metis ceiling_altdef of_int_floor_cancel)
      have m': "m + T = x - T * of_int \<lfloor>x / T\<rfloor>" by (simp add: m c algebra_simps)
      have b: "0 \<le> m + T" "m + T < T" using floor_mod_bounds [OF T, of x] by (simp_all add: m')
      have "\<lfloor>(m + T) / T\<rfloor> = 0"
      proof -
        have "0 \<le> (m + T) / T" "(m + T) / T < 1" using b T by simp_all
        then show ?thesis by linarith
      qed
      then have "jsmod (m + T) T = m + T" using b T by (simp add: jsmod_nonneg)
      then show ?thesis by (simp add: normalize1_def m_def [symmetric] T_def [symmetric] m')
    qed
  qed
qed

lemma normalize1_bounds: "0 \<le> normalize1 x" "normalize1 x < TWO_PI"
  using floor_mod_bounds [OF TWO_PI_pos, of x] by (simp_all add: normalize1_floor)

lemma normalize1_id:
  assumes "0 \<le> x" "x < TWO_PI"
  shows "normalize1 x = x"
proof -
  have "0 \<le> x / TWO_PI" "x / TWO_PI < 1" using assms TWO_PI_pos by simp_all
  then have "\<lfloor>x / TWO_PI\<rfloor> = 0" by linarith
  then show ?thesis by (simp add: normalize1_floor)
qed

lemma normalize1_shift: "normalize1 (x + TWO_PI * of_int k) = normalize1 x"
proof -
  have "(x + TWO_PI * of_int k) / TWO_PI = x / TWO_PI + of_int k"
    using TWO_PI_pos by (simp add: field_simps)
  then show ?thesis by (simp add: normalize1_floor algebra_simps)
qed

lemma normalize1_add_left: "normalize1 (normalize1 x + y) = normalize1 (x + y)"
proof -
  have "normalize1 x + y = (x + y) + TWO_PI * of_int (- \<lfloor>x / TWO_PI\<rfloor>)"
    by (simp add: normalize1_floor)
  then show ?thesis by (simp only: normalize1_shift)
qed


lemma map_nth_upt: "length xs = n \<Longrightarrow> map (\<lambda>i. f (xs ! i)) [0..<n] = map f xs"
  by (auto simp: list_eq_iff_nth_eq)

lemma fold_update_pointwise:
  "length a = n \<Longrightarrow> fold (\<lambda>i a. a[i := f (a ! i)]) [0..<n] a = map f a"
  using fold_update_map [of a n "\<lambda>i. f"] by (simp add: map_nth_upt)

lemma normalizePhases_phases:
  "length (phases s) = N s \<Longrightarrow> phases (normalizePhases s) = map normalize1 (phases s)"
  by (simp add: normalizePhases_def fold_update_pointwise)

lemma normalizePhases_frame [simp]:
  "N (normalizePhases s) = N s" "frequencies (normalizePhases s) = frequencies s"
  "dPhases (normalizePhases s) = dPhases s" "K (normalizePhases s) = K s"
  by (simp_all add: normalizePhases_def)

lemma length_fold_update [simp]:
  "length (fold (\<lambda>i a. a[i := f i a]) is a) = length a"
  by (induction "is" arbitrary: a) simp_all

lemma normalizePhases_length [simp]: "length (phases (normalizePhases s)) = length (phases s)"
  by (simp add: normalizePhases_def)

lemma normalizePhases_ok:
  "length (phases s) = N s \<Longrightarrow> phases_ok (normalizePhases s)"
  by (simp add: phases_ok_def normalizePhases_phases normalize1_bounds)

lemma normalizePhases_id:
  "length (phases s) = N s \<Longrightarrow> phases_ok s \<Longrightarrow> normalizePhases s = s"
proof -
  assume l: "length (phases s) = N s" and ok: "phases_ok s"
  have "map normalize1 (phases s) = phases s"
    using ok by (auto simp: phases_ok_def list_eq_iff_nth_eq normalize1_id)
  then have "phases (normalizePhases s) = phases s" by (simp add: normalizePhases_phases l)
  then show ?thesis by (simp add: normalizePhases_def)
qed

lemma setFrequencies_frame [simp]:
  "N (fst (setFrequencies type s g)) = N s"
  "phases (fst (setFrequencies type s g)) = phases s"
  "dPhases (fst (setFrequencies type s g)) = dPhases s"
  "K (fst (setFrequencies type s g)) = K s"
  "length (frequencies (fst (setFrequencies type s g))) = length (frequencies s)"
  by (simp_all add: setFrequencies_def)

lemma setInitialPhases_frame [simp]:
  "N (fst (setInitialPhases type s g)) = N s"
  "frequencies (fst (setInitialPhases type s g)) = frequencies s"
  "dPhases (fst (setInitialPhases type s g)) = dPhases s"
  "K (fst (setInitialPhases type s g)) = K s"
  "length (phases (fst (setInitialPhases type s g))) = length (phases s)"
  by (simp_all add: setInitialPhases_def Let_def split_def)

lemma setInitialPhases_ok:
  "length (phases s) = N s \<Longrightarrow> phases_ok (fst (setInitialPhases type s g))"
  by (simp add: setInitialPhases_def Let_def split_def normalizePhases_ok)

lemma perturb_frame [simp]:
  "N (fst (perturb a s g)) = N s"
  "frequencies (fst (perturb a s g)) = frequencies s"
  "dPhases (fst (perturb a s g)) = dPhases s"
  "K (fst (perturb a s g)) = K s"
  "length (phases (fst (perturb a s g))) = length (phases s)"
  by (simp_all add: perturb_def)

lemma perturb_ok: "length (phases s) = N s \<Longrightarrow> phases_ok (fst (perturb a s g))"
  by (simp add: perturb_def normalizePhases_ok)

lemma computeDerivatives_frame [simp]:
  "N (computeDerivatives s) = N s"
  "frequencies (computeDerivatives s) = frequencies s"
  "phases (computeDerivatives s) = phases s"
  "K (computeDerivatives s) = K s"
  "length (dPhases (computeDerivatives s)) = length (dPhases s)"
  by (simp_all add: computeDerivatives_def Let_def)

lemma step_frame [simp]:
  "N (step dt s) = N s"
  "frequencies (step dt s) = frequencies s"
  "K (step dt s) = K s"
  "length (phases (step dt s)) = length (phases s)"
  "length (dPhases (step dt s)) = length (dPhases s)"
  by (simp_all add: step_def Let_def)

lemma step_ok: "length (phases s) = N s \<Longrightarrow> phases_ok (step dt s)"
  by (simp add: step_def Let_def normalizePhases_ok)

lemma stepRK4_frame [simp]:
  "N (stepRK4 dt s) = N s"
  "frequencies (stepRK4 dt s) = frequencies s"
  "K (stepRK4 dt s) = K s"
  "length (phases (stepRK4 dt s)) = length (phases s)"
  "length (dPhases (stepRK4 dt s)) = length (dPhases s)"
  by (simp_all add: stepRK4_def Let_def)

lemma stepRK4_ok: "length (phases s) = N s \<Longrightarrow> phases_ok (stepRK4 dt s)"
  by (simp add: stepRK4_def Let_def normalizePhases_ok)

lemma constructor_frame [simp]:
  "N (fst (constructor n g)) = n"
  "K (fst (constructor n g)) = 1"
  "length (phases (fst (constructor n g))) = n"
  "length (frequencies (fst (constructor n g))) = n"
  "dPhases (fst (constructor n g)) = replicate n 0"
  by (simp_all add: constructor_def Let_def split_def)

lemma constructor_ok: "phases_ok (fst (constructor n g))"
  by (simp add: constructor_def Let_def split_def setInitialPhases_ok)

section \<open>Call sequences keep the invariants\<close>

lemma setCoupling_frame [simp]:
  "N (setCoupling k s) = N s" "phases (setCoupling k s) = phases s"
  "frequencies (setCoupling k s) = frequencies s" "dPhases (setCoupling k s) = dPhases s"
  "K (setCoupling k s) = max 0 k"
  by (simp_all add: setCoupling_def)

lemma phases_ok_frame [simp]:
  "phases_ok (fst (setFrequencies type s g)) = phases_ok s"
  "phases_ok (setCoupling k s) = phases_ok s"
  by (simp_all add: phases_ok_def)

lemma apply_call_inv:
  assumes "lengths_ok (fst p)" "phases_ok (fst p)"
  shows "lengths_ok (fst (apply_call c p)) \<and> phases_ok (fst (apply_call c p))
         \<and> N (fst (apply_call c p)) = N (fst p)"
proof -
  obtain s g where p: "p = (s, g)" by (cases p)
  have l: "length (phases s) = N s" using assms by (simp add: p lengths_ok_def)
  show ?thesis
  proof (cases c)
    case (SetFrequencies t)
    then show ?thesis using assms by (simp add: p lengths_ok_def)
  next
    case (SetInitialPhases t)
    then show ?thesis using assms l by (simp add: p lengths_ok_def setInitialPhases_ok)
  next
    case (Perturb a)
    then show ?thesis using assms l by (simp add: p lengths_ok_def perturb_ok)
  next
    case (SetCoupling k)
    then show ?thesis using assms by (simp add: p lengths_ok_def)
  next
    case (Step dt)
    then show ?thesis using assms l by (simp add: p lengths_ok_def step_ok)
  next
    case (StepRK4 dt)
    then show ?thesis using assms l by (simp add: p lengths_ok_def stepRK4_ok)
  qed
qed

lemma fold_apply_call_inv:
  "lengths_ok (fst p) \<Longrightarrow> phases_ok (fst p) \<Longrightarrow>
   lengths_ok (fst (fold apply_call cs p)) \<and> phases_ok (fst (fold apply_call cs p))
   \<and> N (fst (fold apply_call cs p)) = N (fst p)"
proof (induction cs arbitrary: p)
  case Nil
  then show ?case by simp
next
  case (Cons c cs)
  from apply_call_inv [OF Cons.prems, of c] Cons.IH [of "apply_call c p"]
  show ?case by simp
qed

lemma constructor_lengths_ok: "lengths_ok (fst (constructor n g))"
  by (simp add: lengths_ok_def)

lemma run_calls_inv:
  "lengths_ok (fst (run_calls n g cs))" "phases_ok (fst (run_calls n g cs))"
  "N (fst (run_calls n g cs)) = n"
  using fold_apply_call_inv [OF constructor_lengths_ok constructor_ok, of cs n g]
  by (simp_all add: run_calls_def)

section \<open>Phase range, frame and configuration\<close>

text \<open>
  \<^bold>\<open>C1\<close>. After the constructor and any finite sequence of calls of \<open>setFrequencies\<close>,
  \<open>setInitialPhases\<close>, \<open>perturb\<close> (any intensity), \<open>setCoupling\<close>, \<open>step\<close> and \<open>stepRK4\<close>
  (any \<open>dt\<close>), whatever numbers \<open>Math.random\<close> returns, the array \<open>phases\<close> has length \<open>N\<close>
  and each of its elements is in \<open>[0, 2\<pi>)\<close>; and the normalisation
  \<open>((x % 2\<pi>) + 2\<pi>) % 2\<pi>\<close> sends every real, negative or not, into \<open>[0, 2\<pi>)\<close>.
\<close>

theorem C1_phases_in_range:
  "length (phases (fst (run_calls n g cs))) = n
   \<and> (\<forall>i<n. 0 \<le> phases (fst (run_calls n g cs)) ! i
             \<and> phases (fst (run_calls n g cs)) ! i < 2 * pi)
   \<and> (\<forall>x. 0 \<le> normalize1 x \<and> normalize1 x < 2 * pi)"
proof -
  let ?s = "fst (run_calls n g cs)"
  have l: "length (phases ?s) = n"
    using run_calls_inv(1) [of n g cs] run_calls_inv(3) [of n g cs] by (simp add: lengths_ok_def)
  moreover have "\<forall>i<n. 0 \<le> phases ?s ! i \<and> phases ?s ! i < 2 * pi"
    using run_calls_inv(2) [of n g cs] l by (simp add: phases_ok_def TWO_PI_def)
  moreover have "\<forall>x. 0 \<le> normalize1 x \<and> normalize1 x < 2 * pi"
    using normalize1_bounds by (simp add: TWO_PI_def)
  ultimately show ?thesis by blast
qed

theorem C1_phases_in_range_witness:
  "0 \<le> phases (fst (run_calls 2 (const_rng 0) [Perturb 1, Step 1, StepRK4 (- 3)])) ! 1
   \<and> phases (fst (run_calls 2 (const_rng 0) [Perturb 1, Step 1, StepRK4 (- 3)])) ! 1 < 2 * pi"
  using C1_phases_in_range [of 2 "const_rng 0" "[Perturb 1, Step 1, StepRK4 (- 3)]"] by simp

text \<open>
  \<^bold>\<open>C10\<close>. For every \<open>dt\<close> and every intensity, \<open>step\<close>, \<open>stepRK4\<close> and \<open>perturb\<close> leave
  \<open>N\<close>, the array \<open>frequencies\<close> and the coupling \<open>K\<close> as they were.
\<close>

theorem C10_only_phases_mutated:
  "N (step dt s) = N s \<and> frequencies (step dt s) = frequencies s \<and> K (step dt s) = K s
   \<and> N (stepRK4 dt s) = N s \<and> frequencies (stepRK4 dt s) = frequencies s
   \<and> K (stepRK4 dt s) = K s
   \<and> N (fst (perturb intensity s g)) = N s
   \<and> frequencies (fst (perturb intensity s g)) = frequencies s
   \<and> K (fst (perturb intensity s g)) = K s"
  by simp

lemma setFrequencies_twoGroups:
  "length (frequencies s) = N s \<Longrightarrow>
   frequencies (fst (setFrequencies ''twoGroups'' s g))
     = map (\<lambda>i. if real i < real (N s) / 2 then 0.8 else 1.2) [0..<N s]"
  by (simp add: setFrequencies_def fold_assign_map)

lemma setFrequencies_identical:
  "setFrequencies ''identical'' s g = (s\<lparr>frequencies := map (\<lambda>_. 1) (frequencies s)\<rparr>, g)"
  by (simp add: setFrequencies_def)

lemma setFrequencies_snd_twoGroups [simp]: "snd (setFrequencies ''twoGroups'' s g) = g"
  by (simp add: setFrequencies_def)

lemma half_index: "real i < real n / 2 \<longleftrightarrow> i < (n + 1) div 2"
proof -
  have "real i < real n / 2 \<longleftrightarrow> real (2 * i) < real n" by (simp add: field_simps)
  also have "\<dots> \<longleftrightarrow> 2 * i < n" by (simp only: of_nat_less_iff)
  also have "\<dots> \<longleftrightarrow> i < (n + 1) div 2" by linarith
  finally show ?thesis .
qed

text \<open>
  \<^bold>\<open>C5\<close>, as the code has it. The test of the loop is \<open>i < N/2\<close> with a real quotient, so
  on a ring whose arrays have length \<open>N\<close>, \<open>setFrequencies('twoGroups')\<close> gives the
  frequency \<open>0.8\<close> to the oscillators \<open>i < \<lceil>N/2\<rceil>\<close> (for an even \<open>N\<close> the first \<open>N/2\<close>, for an
  odd \<open>N\<close> one more than \<open>\<lfloor>N/2\<rfloor>\<close>) and \<open>1.2\<close> to the others, and changes nothing else: not
  \<open>N\<close>, the phases, \<open>dPhases\<close> or \<open>K\<close>, and it draws no random number.
\<close>

theorem C5_twoGroups:
  assumes "length (frequencies s) = N s"
  shows "length (frequencies (fst (setFrequencies ''twoGroups'' s g))) = N s
    \<and> (\<forall>i<N s. frequencies (fst (setFrequencies ''twoGroups'' s g)) ! i
                 = (if i < (N s + 1) div 2 then 0.8 else 1.2))
    \<and> N (fst (setFrequencies ''twoGroups'' s g)) = N s
    \<and> phases (fst (setFrequencies ''twoGroups'' s g)) = phases s
    \<and> dPhases (fst (setFrequencies ''twoGroups'' s g)) = dPhases s
    \<and> K (fst (setFrequencies ''twoGroups'' s g)) = K s
    \<and> snd (setFrequencies ''twoGroups'' s g) = g"
proof -
  let ?f = "frequencies (fst (setFrequencies ''twoGroups'' s g))"
  have f: "?f = map (\<lambda>i. if real i < real (N s) / 2 then 0.8 else 1.2) [0..<N s]"
    using assms by (rule setFrequencies_twoGroups)
  have "\<forall>i<N s. ?f ! i = (if i < (N s + 1) div 2 then 0.8 else 1.2)"
  proof (intro allI impI)
    fix i assume "i < N s"
    then have "?f ! i = (if real i < real (N s) / 2 then 0.8 else 1.2)"
      unfolding f by (subst nth_map_upt) simp_all
    then show "?f ! i = (if i < (N s + 1) div 2 then 0.8 else 1.2)"
      by (simp only: half_index)
  qed
  moreover have "length ?f = N s" using assms by simp
  ultimately show ?thesis by simp
qed

lemma constructor_eq:
  "constructor n g =
     (\<lparr>N = n, phases = map (\<lambda>i. normalize1 (g i * TWO_PI)) [0..<n],
       frequencies = replicate n 1, dPhases = replicate n 0, K = 1\<rparr>, advance n g)"
  by (simp add: constructor_def setFrequencies_def setInitialPhases_def normalizePhases_def
      fold_assign_map fold_update_pointwise map_replicate_const)

lemma normalize1_0 [simp]: "normalize1 0 = 0"
  by (simp add: normalize1_floor)

theorem C5_twoGroups_witness:
  "frequencies (fst (setFrequencies ''twoGroups'' (fst (constructor 4 (const_rng 0))) (const_rng 0))) ! 1
     = 0.8
   \<and> frequencies (fst (setFrequencies ''twoGroups'' (fst (constructor 4 (const_rng 0))) (const_rng 0))) ! 2
     = 1.2"
proof -
  let ?s = "fst (constructor 4 (const_rng 0))"
  have l: "length (frequencies ?s) = N ?s" by simp
  from C5_twoGroups [OF l, of "const_rng 0"]
  have "\<forall>i<4. frequencies (fst (setFrequencies ''twoGroups'' ?s (const_rng 0))) ! i
              = (if i < (4 + 1) div 2 then 0.8 else 1.2)"
    by simp
  then show ?thesis by simp
qed

text \<open>For \<open>N = 3\<close> the oscillator of index \<open>1 = \<lfloor>3/2\<rfloor>\<close> has the frequency \<open>0.8\<close>: two oscillators
  are in the slow group, not one.\<close>

theorem C5_floor_counterexample:
  "frequencies (fst (setFrequencies ''twoGroups'' (fst (constructor 3 (const_rng 0))) (const_rng 0)))
     = [0.8, 0.8, 1.2]
   \<and> [0.8, 0.8, 1.2] \<noteq> replicate (3 div 2) 0.8 @ replicate (3 - 3 div 2) (1.2 :: real)"
proof -
  have "frequencies (fst (setFrequencies ''twoGroups'' (fst (constructor 3 (const_rng 0))) (const_rng 0)))
     = [0.8, 0.8, 1.2]"
    by (simp add: setFrequencies_twoGroups upt_rec numeral_eq_Suc)
  moreover have "[0.8, 0.8, 1.2] \<noteq> replicate (3 div 2) 0.8 @ replicate (3 - 3 div 2) (1.2 :: real)"
  proof -
    have d: "(3::nat) div 2 = Suc 0" "(3::nat) - 3 div 2 = Suc (Suc 0)" by simp_all
    show ?thesis unfolding d by (simp add: numeral_2_eq_2)
  qed
  ultimately show ?thesis by (rule conjI)
qed

lemma setFrequencies_unknown:
  "type \<noteq> ''identical'' \<Longrightarrow> type \<noteq> ''random'' \<Longrightarrow> type \<noteq> ''twoGroups'' \<Longrightarrow>
   setFrequencies type s g = (s, g)"
  by (simp add: setFrequencies_def)

lemma setInitialPhases_unknown:
  "type \<noteq> ''random'' \<Longrightarrow> type \<noteq> ''quasiSync'' \<Longrightarrow> type \<noteq> ''twisted1'' \<Longrightarrow>
   type \<noteq> ''twisted2'' \<Longrightarrow> setInitialPhases type s g = (normalizePhases s, g)"
  by (simp add: setInitialPhases_def)

text \<open>
  \<^bold>\<open>C6\<close>, as the code has it. Neither \<open>switch\<close> has a \<open>default\<close> branch. With a name that
  is none of its cases, \<open>setFrequencies\<close> returns the simulator as it was, and
  \<open>setInitialPhases\<close> only runs \<open>normalizePhases\<close>, which changes nothing on a simulator
  whose phases are already in \<open>[0, 2\<pi>)\<close>. No error is reported.
\<close>

theorem C6_unknown_policy_is_no_op:
  "(type \<notin> {''identical'', ''random'', ''twoGroups''} \<longrightarrow> setFrequencies type s g = (s, g))
   \<and> (type \<notin> {''random'', ''quasiSync'', ''twisted1'', ''twisted2''} \<longrightarrow>
        setInitialPhases type s g = (normalizePhases s, g)
        \<and> (length (phases s) = N s \<and> phases_ok s \<longrightarrow> setInitialPhases type s g = (s, g)))"
  by (simp add: setFrequencies_unknown setInitialPhases_unknown normalizePhases_id)

theorem C6_unknown_policy_is_no_op_witness:
  "setFrequencies ''sinusoidal'' (fst (constructor 4 (const_rng 0))) (const_rng 0)
     = (fst (constructor 4 (const_rng 0)), const_rng 0)
   \<and> setInitialPhases ''splay'' (fst (constructor 4 (const_rng 0))) (const_rng 0)
     = (fst (constructor 4 (const_rng 0)), const_rng 0)"
proof -
  let ?s = "fst (constructor 4 (const_rng 0))"
  have a: "length (phases ?s) = N ?s \<and> phases_ok ?s" by (simp add: constructor_ok)
  have "setFrequencies ''sinusoidal'' ?s (const_rng 0) = (?s, const_rng 0)"
    using C6_unknown_policy_is_no_op [of "''sinusoidal''" ?s "const_rng 0"] by simp
  moreover have "''splay'' \<notin> {''random'', ''quasiSync'', ''twisted1'', ''twisted2''}" by simp
  with C6_unknown_policy_is_no_op [of "''splay''" ?s "const_rng 0"] a
  have "setInitialPhases ''splay'' ?s (const_rng 0) = (?s, const_rng 0)" by blast
  ultimately show ?thesis by (rule conjI)
qed

text \<open>On a new ring of two oscillators the name \<open>'bogus'\<close> is accepted by both methods, which
  return the ring unchanged.\<close>

theorem C6_silent_no_op_counterexample:
  "setFrequencies ''bogus'' (fst (constructor 2 (const_rng 0))) (const_rng 0)
     = (\<lparr>N = 2, phases = [0, 0], frequencies = [1, 1], dPhases = [0, 0], K = 1\<rparr>, const_rng 0)
   \<and> setInitialPhases ''bogus'' (fst (constructor 2 (const_rng 0))) (const_rng 0)
     = (\<lparr>N = 2, phases = [0, 0], frequencies = [1, 1], dPhases = [0, 0], K = 1\<rparr>, const_rng 0)
   \<and> fst (constructor 2 (const_rng 0))
     = \<lparr>N = 2, phases = [0, 0], frequencies = [1, 1], dPhases = [0, 0], K = 1\<rparr>"
proof -
  have c: "fst (constructor 2 (const_rng 0))
     = \<lparr>N = 2, phases = [0, 0], frequencies = [1, 1], dPhases = [0, 0], K = 1\<rparr>"
    by (simp add: constructor_eq const_rng_def upt_rec numeral_2_eq_2)
  have n: "normalizePhases \<lparr>N = 2, phases = [0, 0], frequencies = [1, 1], dPhases = [0, 0], K = 1\<rparr>
     = \<lparr>N = 2, phases = [0, 0], frequencies = [1, 1], dPhases = [0, 0], K = 1\<rparr>"
    by (simp add: normalizePhases_def fold_update_pointwise)
  show ?thesis
    unfolding c by (simp add: setFrequencies_unknown setInitialPhases_unknown n)
qed

text \<open>
  \<^bold>\<open>C3\<close>, as the code has it. The constructor checks nothing: for every \<open>N\<close>, also \<open>0\<close> and
  \<open>1\<close>, it returns a simulator with \<open>N\<close> oscillators, all frequencies \<open>1.0\<close>, coupling \<open>1.0\<close>,
  and the phases \<open>2\<pi> \<cdot> Math.random()\<close> (normalised, which changes nothing when the draws are
  in \<open>[0, 1)\<close>), having drawn \<open>N\<close> random numbers.
\<close>

theorem C3_constructor_total:
  "constructor n g =
     (\<lparr>N = n, phases = map (\<lambda>i. normalize1 (g i * TWO_PI)) [0..<n],
       frequencies = replicate n 1, dPhases = replicate n 0, K = 1\<rparr>, advance n g)
   \<and> ((\<forall>i<n. 0 \<le> g i \<and> g i < 1) \<longrightarrow>
        phases (fst (constructor n g)) = map (\<lambda>i. g i * TWO_PI) [0..<n])"
proof -
  have "phases (fst (constructor n g)) = map (\<lambda>i. g i * TWO_PI) [0..<n]"
    if g: "\<forall>i<n. 0 \<le> g i \<and> g i < 1"
  proof -
    have "normalize1 (g i * TWO_PI) = g i * TWO_PI" if "i < n" for i
    proof (rule normalize1_id)
      show "0 \<le> g i * TWO_PI" using g that TWO_PI_pos by simp
      have "g i * TWO_PI < 1 * TWO_PI"
        using g that TWO_PI_pos by (intro mult_strict_right_mono) simp_all
      then show "g i * TWO_PI < TWO_PI" by simp
    qed
    then show ?thesis by (simp add: constructor_eq)
  qed
  then show ?thesis by (simp add: constructor_eq)
qed

theorem C3_constructor_total_witness:
  "phases (fst (constructor 1 (const_rng (1 / 4)))) = [pi / 2]
   \<and> frequencies (fst (constructor 1 (const_rng (1 / 4)))) = [1]"
proof -
  have g: "\<forall>i<1. 0 \<le> const_rng (1 / 4) i \<and> const_rng (1 / 4) i < 1"
    by (simp add: const_rng_def)
  with C3_constructor_total [of 1 "const_rng (1 / 4)"]
  have "phases (fst (constructor 1 (const_rng (1 / 4))))
          = map (\<lambda>i. const_rng (1 / 4) i * TWO_PI) [0..<1]"
    by blast
  then have "phases (fst (constructor 1 (const_rng (1 / 4)))) = [pi / 2]"
    by (simp add: const_rng_def TWO_PI_def)
  moreover have "frequencies (fst (constructor 1 (const_rng (1 / 4)))) = [1]"
    by (simp add: constructor_eq)
  ultimately show ?thesis by (rule conjI)
qed

text \<open>\<open>new KuramotoSimulator(1)\<close> and \<open>new KuramotoSimulator(0)\<close> return rings.\<close>

theorem C3_degenerate_ring_counterexample:
  "constructor 1 (const_rng 0)
     = (\<lparr>N = 1, phases = [0], frequencies = [1], dPhases = [0], K = 1\<rparr>, advance 1 (const_rng 0))
   \<and> constructor 0 (const_rng 0)
     = (\<lparr>N = 0, phases = [], frequencies = [], dPhases = [], K = 1\<rparr>, advance 0 (const_rng 0))"
  by (simp add: constructor_eq const_rng_def)

section \<open>The Euler step\<close>

lemma computeDerivatives_dPhases:
  "length (dPhases s) = N s \<Longrightarrow>
   dPhases (computeDerivatives s) =
     map (\<lambda>i. frequencies s ! i
                + K s / 2 * (sin (phases s ! ((i + 1) mod N s) - phases s ! i)
                             + sin (phases s ! ((i + N s - 1) mod N s) - phases s ! i)))
       [0..<N s]"
  by (simp add: computeDerivatives_def Let_def fold_assign_map)

lemma step_phases:
  assumes "lengths_ok s"
  shows "phases (step dt s) =
     map (\<lambda>i. normalize1 (phases s ! i + dPhases (computeDerivatives s) ! i * dt)) [0..<N s]"
proof -
  have l: "length (phases s) = N s" using assms by (simp add: lengths_ok_def)
  let ?s1 = "computeDerivatives s"
  have f: "fold (\<lambda>i a. a[i := a ! i + dPhases ?s1 ! i * dt]) [0..<N s] (phases s)
           = map (\<lambda>i. phases s ! i + dPhases ?s1 ! i * dt) [0..<N s]"
    using fold_update_map [of "phases s" "N s" "\<lambda>i x. x + dPhases ?s1 ! i * dt"] l by simp
  show ?thesis
    by (simp add: step_def Let_def normalizePhases_phases l f comp_def)
qed

lemma step_phases_uncoupled:
  assumes "lengths_ok s" "K s = 0" "i < N s"
  shows "phases (step dt s) ! i = normalize1 (phases s ! i + frequencies s ! i * dt)"
proof -
  have "length (dPhases s) = N s" using assms by (simp add: lengths_ok_def)
  then have "dPhases (computeDerivatives s) ! i = frequencies s ! i"
    using assms by (simp add: computeDerivatives_dPhases)
  then show ?thesis using assms by (simp add: step_phases)
qed

lemma step_lengths_ok: "lengths_ok s \<Longrightarrow> lengths_ok (step dt s)"
  by (simp add: lengths_ok_def)

lemma funpow_step_frame [simp]:
  "N ((step dt ^^ n) s) = N s" "K ((step dt ^^ n) s) = K s"
  "frequencies ((step dt ^^ n) s) = frequencies s"
  "length (phases ((step dt ^^ n) s)) = length (phases s)"
  "length (dPhases ((step dt ^^ n) s)) = length (dPhases s)"
  by (induction n) simp_all

lemma funpow_step_lengths_ok: "lengths_ok s \<Longrightarrow> lengths_ok ((step dt ^^ n) s)"
  by (simp add: lengths_ok_def)

lemma funpow_step_uncoupled:
  assumes "lengths_ok s" "K s = 0" "i < N s"
  shows "phases ((step dt ^^ Suc n) s) ! i
         = normalize1 (phases s ! i + frequencies s ! i * (real (Suc n) * dt))"
proof (induction n)
  case 0
  show ?case using step_phases_uncoupled [OF assms, of dt] by simp
next
  case (Suc n)
  let ?t = "(step dt ^^ Suc n) s"
  have "phases (step dt ?t) ! i = normalize1 (phases ?t ! i + frequencies ?t ! i * dt)"
    by (rule step_phases_uncoupled) (use assms in \<open>simp_all add: funpow_step_lengths_ok del: funpow.simps\<close>)
  also have "\<dots> = normalize1 (normalize1 (phases s ! i + frequencies s ! i * (real (Suc n) * dt))
                              + frequencies s ! i * dt)"
    by (simp only: Suc.IH funpow_step_frame)
  also have "\<dots> = normalize1 (phases s ! i + frequencies s ! i * (real (Suc n) * dt)
                              + frequencies s ! i * dt)"
    by (rule normalize1_add_left)
  also have "\<dots> = normalize1 (phases s ! i + frequencies s ! i * (real (Suc (Suc n)) * dt))"
    by (simp add: algebra_simps)
  finally show ?case by simp
qed



section \<open>Classification\<close>

lemma getOrderParameter_depends:
  "N s' = N s \<Longrightarrow> phases s' = phases s \<Longrightarrow> getOrderParameter s' = getOrderParameter s"
  by (simp add: getOrderParameter_def)

lemma getWindingNumber_depends:
  "N s' = N s \<Longrightarrow> phases s' = phases s \<Longrightarrow> getWindingNumber s' = getWindingNumber s"
  by (simp add: getWindingNumber_def)

lemma label_chain:
  fixes A B C D :: bool
  shows "(if A then Synchronise else if B then Twisted q else if C then Twisted q
          else if D then Desynchronise else Partiel r q) = Synchronise \<longleftrightarrow> A"
    and "(if A then Synchronise else if B then Twisted q else if C then Twisted q
          else if D then Desynchronise else Partiel r q) = Twisted q'
         \<longleftrightarrow> q' = q \<and> \<not> A \<and> (B \<or> C)"
    and "(if A then Synchronise else if B then Twisted q else if C then Twisted q
          else if D then Desynchronise else Partiel r q) = Desynchronise
         \<longleftrightarrow> \<not> A \<and> \<not> B \<and> \<not> C \<and> D"
    and "(if A then Synchronise else if B then Twisted q else if C then Twisted q
          else if D then Desynchronise else Partiel r q) = Partiel r' q'
         \<longleftrightarrow> r' = r \<and> q' = q \<and> \<not> A \<and> \<not> B \<and> \<not> C \<and> \<not> D"
  by auto


section \<open>The order parameter\<close>

lemma fold_add_upt: "fold (\<lambda>i acc. acc + f i) [0..<n] (a :: real) = a + (\<Sum>i<n. f i)"
  by (induction n) simp_all

lemma getOrderParameter_r:
  "fst (getOrderParameter s)
     = sqrt ((sumCos s / real (N s)) * (sumCos s / real (N s))
             + (sumSin s / real (N s)) * (sumSin s / real (N s)))"
  by (simp add: getOrderParameter_def Let_def fold_add_upt sumCos_def sumSin_def)

lemma getOrderParameter_r':
  "0 < N s \<Longrightarrow>
   fst (getOrderParameter s) = sqrt ((sumCos s)\<^sup>2 + (sumSin s)\<^sup>2) / real (N s)"
proof -
  assume n: "0 < N s"
  have "(sumCos s / real (N s)) * (sumCos s / real (N s))
        + (sumSin s / real (N s)) * (sumSin s / real (N s))
        = ((sumCos s)\<^sup>2 + (sumSin s)\<^sup>2) / (real (N s))\<^sup>2"
    by (simp add: power2_eq_square add_divide_distrib)
  then show ?thesis using n
    by (simp add: getOrderParameter_r real_sqrt_divide)
qed

lemma sums_squared:
  "(sumCos s)\<^sup>2 + (sumSin s)\<^sup>2
     = (\<Sum>i<N s. \<Sum>j<N s. cos (phases s ! i - phases s ! j))"
proof -
  have "(sumCos s)\<^sup>2 = (\<Sum>i<N s. \<Sum>j<N s. cos (phases s ! i) * cos (phases s ! j))"
    by (simp add: sumCos_def power2_eq_square sum_product)
  moreover have "(sumSin s)\<^sup>2 = (\<Sum>i<N s. \<Sum>j<N s. sin (phases s ! i) * sin (phases s ! j))"
    by (simp add: sumSin_def power2_eq_square sum_product)
  ultimately show ?thesis
    by (simp add: cos_diff sum.distrib)
qed

lemma sums_squared_le: "(sumCos s)\<^sup>2 + (sumSin s)\<^sup>2 \<le> (real (N s))\<^sup>2"
proof -
  have "(\<Sum>i<N s. \<Sum>j<N s. cos (phases s ! i - phases s ! j)) \<le> (\<Sum>i<N s. \<Sum>j<N s. 1)"
    by (intro sum_mono) simp
  moreover have "(\<Sum>i<N s. \<Sum>j<N s. (1::real)) = (real (N s))\<^sup>2"
    by (simp add: power2_eq_square)
  ultimately show ?thesis unfolding sums_squared by linarith
qed

lemma order_parameter_bounds:
  assumes "0 < N s"
  shows "0 \<le> fst (getOrderParameter s)" "fst (getOrderParameter s) \<le> 1"
proof -
  show "0 \<le> fst (getOrderParameter s)" by (simp add: getOrderParameter_r)
  have "sqrt ((sumCos s)\<^sup>2 + (sumSin s)\<^sup>2) \<le> sqrt ((real (N s))\<^sup>2)"
    using sums_squared_le by (rule real_sqrt_le_mono)
  then have "sqrt ((sumCos s)\<^sup>2 + (sumSin s)\<^sup>2) \<le> real (N s)" by simp
  then show "fst (getOrderParameter s) \<le> 1"
    using assms by (simp add: getOrderParameter_r')
qed

lemma order_parameter_one_iff_sums:
  assumes "0 < N s"
  shows "fst (getOrderParameter s) = 1 \<longleftrightarrow> (sumCos s)\<^sup>2 + (sumSin s)\<^sup>2 = (real (N s))\<^sup>2"
proof -
  have "fst (getOrderParameter s) = 1
        \<longleftrightarrow> sqrt ((sumCos s)\<^sup>2 + (sumSin s)\<^sup>2) = real (N s)"
    using assms by (auto simp: getOrderParameter_r')
  also have "\<dots> \<longleftrightarrow> sqrt ((sumCos s)\<^sup>2 + (sumSin s)\<^sup>2) = sqrt ((real (N s))\<^sup>2)"
    by simp
  also have "\<dots> \<longleftrightarrow> (sumCos s)\<^sup>2 + (sumSin s)\<^sup>2 = (real (N s))\<^sup>2"
    by (rule real_sqrt_eq_iff)
  finally show ?thesis .
qed

lemma all_cos_one:
  assumes "(sumCos s)\<^sup>2 + (sumSin s)\<^sup>2 = (real (N s))\<^sup>2" "i < N s" "j < N s"
  shows "cos (phases s ! i - phases s ! j) = 1"
proof -
  let ?d = "\<lambda>i j. 1 - cos (phases s ! i - phases s ! j)"
  have "(\<Sum>i<N s. \<Sum>j<N s. ?d i j)
        = (\<Sum>i<N s. \<Sum>j<N s. 1) - (\<Sum>i<N s. \<Sum>j<N s. cos (phases s ! i - phases s ! j))"
    by (simp only: sum_subtractf)
  also have "(\<Sum>i<N s. \<Sum>j<N s. (1::real)) = (real (N s))\<^sup>2"
    by (simp add: power2_eq_square)
  finally have z: "(\<Sum>i<N s. \<Sum>j<N s. ?d i j) = 0"
    using assms(1) by (simp only: sums_squared [symmetric])
  have nn: "0 \<le> ?d i j" for i j by simp
  have "(\<Sum>j<N s. ?d i j) = 0"
  proof -
    have "\<forall>i\<in>{..<N s}. (\<Sum>j<N s. ?d i j) = 0"
      by (rule iffD1 [OF sum_nonneg_eq_0_iff z]) (simp_all add: sum_nonneg)
    then show ?thesis using assms(2) by simp
  qed
  then have "\<forall>j\<in>{..<N s}. ?d i j = 0"
    by (rule iffD1 [OF sum_nonneg_eq_0_iff, rotated -1]) simp_all
  then have "?d i j = 0" using assms(3) by simp
  then show ?thesis by simp
qed

lemma cos_one_small:
  assumes "cos (x - y) = 1" "0 \<le> x" "x < 2 * pi" "0 \<le> y" "y < 2 * pi"
  shows "x = y"
proof -
  from assms(1) obtain k :: int where k: "x - y = of_int k * (2 * pi)"
    by (auto simp: cos_one_2pi_int)
  have "- (2 * pi) < x - y" "x - y < 2 * pi" using assms by linarith+
  then have "(- 1) * (2 * pi) < real_of_int k * (2 * pi)" "real_of_int k * (2 * pi) < 1 * (2 * pi)"
    unfolding k by simp_all
  then have "- 1 < real_of_int k" "real_of_int k < 1"
    by (simp_all only: mult_less_cancel_right_pos [of "2 * pi"] pi_gt_zero mult_pos_pos zero_less_numeral)
  then have "k = 0" by linarith
  then show ?thesis using k by simp
qed

lemma order_parameter_one_iff:
  assumes "0 < N s" "length (phases s) = N s" "phases_ok s"
  shows "fst (getOrderParameter s) = 1 \<longleftrightarrow> (\<forall>i<N s. \<forall>j<N s. phases s ! i = phases s ! j)"
proof
  assume "fst (getOrderParameter s) = 1"
  then have e: "(sumCos s)\<^sup>2 + (sumSin s)\<^sup>2 = (real (N s))\<^sup>2"
    using assms(1) by (simp add: order_parameter_one_iff_sums)
  show "\<forall>i<N s. \<forall>j<N s. phases s ! i = phases s ! j"
  proof (intro allI impI)
    fix i j assume ij: "i < N s" "j < N s"
    have c: "cos (phases s ! i - phases s ! j) = 1" using e ij by (rule all_cos_one)
    have ok: "\<forall>i<N s. 0 \<le> phases s ! i \<and> phases s ! i < 2 * pi"
      using assms(2,3) by (simp add: phases_ok_def TWO_PI_def)
    have bi: "0 \<le> phases s ! i" "phases s ! i < 2 * pi" using ok ij(1) by blast+
    have bj: "0 \<le> phases s ! j" "phases s ! j < 2 * pi" using ok ij(2) by blast+
    show "phases s ! i = phases s ! j"
      using c bi bj by (rule cos_one_small)
  qed
next
  assume eq: "\<forall>i<N s. \<forall>j<N s. phases s ! i = phases s ! j"
  have "(\<Sum>i<N s. \<Sum>j<N s. cos (phases s ! i - phases s ! j)) = (\<Sum>i<N s. \<Sum>j<N s. 1)"
  proof (intro sum.cong refl)
    fix i j assume "i \<in> {..<N s}" "j \<in> {..<N s}"
    then have "i < N s" "j < N s" by simp_all
    with eq have "phases s ! i = phases s ! j" by blast
    then show "cos (phases s ! i - phases s ! j) = 1" by simp
  qed
  moreover have "(\<Sum>i<N s. \<Sum>j<N s. (1::real)) = (real (N s))\<^sup>2"
    by (simp add: power2_eq_square)
  ultimately have "(sumCos s)\<^sup>2 + (sumSin s)\<^sup>2 = (real (N s))\<^sup>2"
    unfolding sums_squared by (rule trans)
  then show "fst (getOrderParameter s) = 1"
    using assms(1) by (simp add: order_parameter_one_iff_sums)
qed

lemma order_parameter_quarter_turns:
  assumes "N s = 4" "phases s = [0, pi / 2, pi, 3 * pi / 2]"
  shows "fst (getOrderParameter s) = 0"
proof -
  have c: "cos (3 * pi / 2) = 0" and si: "sin (3 * pi / 2) = - 1"
    using cos_add [of pi "pi / 2"] sin_add [of pi "pi / 2"] by (simp_all add: field_simps)
  have "sumCos s = 0" "sumSin s = 0"
    by (simp_all add: sumCos_def sumSin_def assms numeral_eq_Suc c si)
  then show ?thesis by (simp add: getOrderParameter_r)
qed

lemma order_parameter_all_equal:
  assumes "0 < N s" "\<forall>i<N s. phases s ! i = x"
  shows "fst (getOrderParameter s) = 1"
proof -
  have "sumCos s = real (N s) * cos x" "sumSin s = real (N s) * sin x"
    using assms(2) by (simp_all add: sumCos_def sumSin_def)
  then have "(sumCos s)\<^sup>2 + (sumSin s)\<^sup>2 = (real (N s))\<^sup>2 * ((cos x)\<^sup>2 + (sin x)\<^sup>2)"
    by (simp only: power_mult_distrib distrib_left)
  also have "\<dots> = (real (N s))\<^sup>2" by (simp only: cos_squared_eq) simp
  finally have "(sumCos s)\<^sup>2 + (sumSin s)\<^sup>2 = (real (N s))\<^sup>2" .
  then show ?thesis using assms(1) by (simp add: order_parameter_one_iff_sums)
qed

lemma setInitialPhases_twisted1:
  assumes "length (phases s) = N s"
  shows "phases (fst (setInitialPhases ''twisted1'' s g))
         = map (\<lambda>i. TWO_PI * real i / real (N s)) [0..<N s]"
proof -
  have "normalize1 (TWO_PI * real i / real (N s)) = TWO_PI * real i / real (N s)"
    if "i < N s" for i
  proof (rule normalize1_id)
    show "0 \<le> TWO_PI * real i / real (N s)" using TWO_PI_pos by simp
    have "real i / real (N s) < 1" using that by simp
    then have "TWO_PI * (real i / real (N s)) < TWO_PI * 1"
      using TWO_PI_pos by (intro mult_strict_left_mono)
    then show "TWO_PI * real i / real (N s) < TWO_PI" by simp
  qed
  then show ?thesis
    using assms
    by (simp add: setInitialPhases_def normalizePhases_phases fold_assign_map)
qed

lemma setInitialPhases_twisted2:
  assumes "length (phases s) = N s"
  shows "phases (fst (setInitialPhases ''twisted2'' s g))
         = map (\<lambda>i. normalize1 (4 * pi * real i / real (N s))) [0..<N s]"
  using assms
  by (simp add: setInitialPhases_def normalizePhases_phases fold_assign_map comp_def)

text \<open>Two rings used as concrete inputs: a new ring of four oscillators whose draws were all
  \<open>0\<close>, and the same ring after \<open>setInitialPhases('twisted1')\<close>.\<close>

lemma ring4:
  "fst (constructor 4 (const_rng 0))
     = \<lparr>N = 4, phases = [0, 0, 0, 0], frequencies = [1, 1, 1, 1], dPhases = [0, 0, 0, 0], K = 1\<rparr>"
  by (simp add: constructor_eq const_rng_def upt_rec numeral_eq_Suc)

lemma ring4_twisted1:
  "phases (fst (setInitialPhases ''twisted1'' (fst (constructor 4 (const_rng 0))) (const_rng 0)))
     = [0, pi / 2, pi, 3 * pi / 2]"
proof -
  have "phases (fst (setInitialPhases ''twisted1'' (fst (constructor 4 (const_rng 0))) (const_rng 0)))
     = map (\<lambda>i. TWO_PI * real i / real 4) [0..<4]"
    using setInitialPhases_twisted1 [of "fst (constructor 4 (const_rng 0))" "const_rng 0"]
    by simp
  also have "\<dots> = [0, pi / 2, pi, 3 * pi / 2]"
    by (simp add: upt_rec numeral_eq_Suc TWO_PI_def)
  finally show ?thesis .
qed



section \<open>The winding number\<close>

lemma wrap_down_id: "d \<le> pi \<Longrightarrow> wrap_down d = d"
  by (subst wrap_down.simps) simp

lemma wrap_up_id: "- pi \<le> d \<Longrightarrow> wrap_up d = d"
  by (subst wrap_up.simps) simp

lemma wrap_down_shift:
  assumes "- pi < x" "x \<le> pi"
  shows "wrap_down (x + TWO_PI * real k) = x"
proof (induction k)
  case 0
  show ?case using assms by (simp add: wrap_down_id)
next
  case (Suc k)
  have p: "0 \<le> pi * (real k * 2)" by simp
  have e: "x + TWO_PI * real (Suc k) = x + 2 * pi + pi * (real k * 2)"
    by (simp add: TWO_PI_def algebra_simps)
  have "pi < x + TWO_PI * real (Suc k)"
    unfolding e using assms(1) p pi_gt_zero by linarith
  then have "wrap_down (x + TWO_PI * real (Suc k)) = wrap_down (x + TWO_PI * real (Suc k) - TWO_PI)"
    by (subst wrap_down.simps) simp
  also have "x + TWO_PI * real (Suc k) - TWO_PI = x + TWO_PI * real k"
    by (simp add: algebra_simps)
  finally show ?case by (simp only: Suc.IH)
qed

lemma wrap_up_shift:
  assumes "- pi \<le> x" "x < pi"
  shows "wrap_up (x - TWO_PI * real k) = x"
proof (induction k)
  case 0
  show ?case using assms by (simp add: wrap_up_id)
next
  case (Suc k)
  have p: "0 \<le> pi * (real k * 2)" by simp
  have e: "x - TWO_PI * real (Suc k) = x - 2 * pi - pi * (real k * 2)"
    by (simp add: TWO_PI_def algebra_simps)
  have "x - TWO_PI * real (Suc k) < - pi"
    unfolding e using assms(2) p pi_gt_zero by linarith
  then have "wrap_up (x - TWO_PI * real (Suc k)) = wrap_up (x - TWO_PI * real (Suc k) + TWO_PI)"
    by (subst wrap_up.simps) simp
  also have "x - TWO_PI * real (Suc k) + TWO_PI = x - TWO_PI * real k"
    by (simp add: algebra_simps)
  finally show ?case by (simp only: Suc.IH)
qed

lemma wrap_both:
  assumes "- pi < x" "x < pi"
  shows "wrap_up (wrap_down (x + TWO_PI * of_int k)) = x"
proof (cases "0 \<le> k")
  case True
  then obtain n where k: "k = int n" using nonneg_int_cases by blast
  have "wrap_down (x + TWO_PI * real n) = x" using assms by (intro wrap_down_shift) simp_all
  then show ?thesis using assms by (simp add: k wrap_up_id)
next
  case False
  then obtain n where k: "k = - int n" by (metis int_cases2 of_nat_0_le_iff)
  have le: "x - TWO_PI * real n \<le> pi" using assms TWO_PI_pos
    by (smt (verit) mult_nonneg_nonneg of_nat_0_le_iff)
  have "wrap_up (x - TWO_PI * real n) = x" using assms by (intro wrap_up_shift) simp_all
  then show ?thesis using le by (simp add: k wrap_down_id)
qed

lemma winding_uniform:
  assumes "\<And>i. i < N s \<Longrightarrow>
             \<exists>k::int. phases s ! (Suc i mod N s) - phases s ! i = x + TWO_PI * of_int k"
    and "- pi < x" "x < pi"
  shows "getWindingNumber s = Math_round (real (N s) * x / TWO_PI)"
proof -
  have w: "wrap_up (wrap_down (phases s ! (Suc i mod N s) - phases s ! i)) = x" if "i < N s" for i
  proof -
    from assms(1) [OF that] obtain k :: int
      where "phases s ! (Suc i mod N s) - phases s ! i = x + TWO_PI * of_int k" ..
    then show ?thesis using wrap_both [OF assms(2,3)] by simp
  qed
  have "(\<Sum>i<N s. wrap_up (wrap_down (phases s ! (Suc i mod N s) - phases s ! i)))
          = (\<Sum>i<N s. x)"
    by (intro sum.cong refl) (simp add: w)
  then show ?thesis
    by (simp add: getWindingNumber_def Let_def fold_add_upt)
qed

lemma Math_round_int [simp]: "Math_round (of_int k) = k"
  by (simp add: Math_round_def)

lemma winding_twisted1:
  assumes "length (phases s) = N s" "3 \<le> N s"
  shows "getWindingNumber (fst (setInitialPhases ''twisted1'' s g)) = 1"
proof -
  let ?t = "fst (setInitialPhases ''twisted1'' s g)"
  let ?n = "N s"
  let ?x = "TWO_PI / real ?n"
  have n: "N ?t = ?n" by simp
  have ph: "phases ?t ! i = TWO_PI * real i / real ?n" if "i < ?n" for i
    using that by (simp add: setInitialPhases_twisted1 [OF assms(1)])
  have pos: "0 < real ?n" using assms(2) by simp
  have d: "\<exists>k::int. phases ?t ! (Suc i mod N ?t) - phases ?t ! i = ?x + TWO_PI * of_int k"
    if i: "i < N ?t" for i
  proof (cases "Suc i < ?n")
    case True
    then have "phases ?t ! (Suc i mod N ?t) - phases ?t ! i
               = TWO_PI * real (Suc i) / real ?n - TWO_PI * real i / real ?n"
      using i by (simp add: ph)
    also have "\<dots> = ?x + TWO_PI * of_int 0"
      by (simp add: algebra_simps add_divide_distrib)
    finally show ?thesis by blast
  next
    case False
    then have e: "Suc i = ?n" using i by simp
    then have "phases ?t ! (Suc i mod N ?t) - phases ?t ! i
               = TWO_PI * real 0 / real ?n - TWO_PI * real i / real ?n"
      using i pos by (simp add: ph del: of_nat_Suc)
    also have "real i = real ?n - 1" using e by simp
    also have "TWO_PI * real 0 / real ?n - TWO_PI * (real ?n - 1) / real ?n
               = ?x + TWO_PI * of_int (- 1)"
      using pos by (simp add: field_simps)
    finally show ?thesis by blast
  qed
  have "real ?n \<ge> 3" using assms(2) by simp
  then have "pi * 3 \<le> pi * real ?n" by (intro mult_left_mono) simp_all
  then have "2 * pi < pi * real ?n" using pi_gt_zero by linarith
  then have lt: "?x < pi" using pos by (simp add: TWO_PI_def field_simps)
  have gt: "- pi < ?x" using pos TWO_PI_pos
    by (smt (verit) divide_pos_pos pi_gt_zero)
  have "getWindingNumber ?t = Math_round (real (N ?t) * ?x / TWO_PI)"
    using d gt lt by (rule winding_uniform)
  also have "real (N ?t) * ?x / TWO_PI = of_int 1"
    using pos TWO_PI_pos by (simp add: n)
  finally show ?thesis by (simp only: Math_round_int)
qed

lemma normalize1_int_shift:
  "\<exists>k::int. normalize1 x = x + TWO_PI * of_int k"
proof
  show "normalize1 x = x + TWO_PI * of_int (- \<lfloor>x / TWO_PI\<rfloor>)"
    by (simp add: normalize1_floor)
qed

lemma winding_twisted2:
  assumes "length (phases s) = N s" "5 \<le> N s"
  shows "getWindingNumber (fst (setInitialPhases ''twisted2'' s g)) = 2"
proof -
  let ?t = "fst (setInitialPhases ''twisted2'' s g)"
  let ?n = "N s"
  let ?x = "4 * pi / real ?n"
  have n: "N ?t = ?n" by simp
  have ph: "phases ?t ! i = normalize1 (4 * pi * real i / real ?n)" if "i < ?n" for i
    using that by (simp add: setInitialPhases_twisted2 [OF assms(1)])
  have pos: "0 < real ?n" using assms(2) by simp
  have d: "\<exists>k::int. phases ?t ! (Suc i mod N ?t) - phases ?t ! i = ?x + TWO_PI * of_int k"
    if i: "i < N ?t" for i
  proof -
    obtain a :: int where a: "normalize1 (4 * pi * real i / real ?n)
        = 4 * pi * real i / real ?n + TWO_PI * of_int a"
      using normalize1_int_shift by blast
    show ?thesis
    proof (cases "Suc i < ?n")
      case True
      obtain b :: int where b: "normalize1 (4 * pi * real (Suc i) / real ?n)
          = 4 * pi * real (Suc i) / real ?n + TWO_PI * of_int b"
        using normalize1_int_shift by blast
      have "phases ?t ! (Suc i mod N ?t) - phases ?t ! i
            = normalize1 (4 * pi * real (Suc i) / real ?n) - normalize1 (4 * pi * real i / real ?n)"
        using i True by (simp add: ph del: of_nat_Suc)
      also have "\<dots> = ?x + TWO_PI * of_int (b - a)"
        unfolding a b by (simp add: algebra_simps add_divide_distrib)
      finally show ?thesis by blast
    next
      case False
      then have e: "Suc i = ?n" using i by simp
      have "phases ?t ! (Suc i mod N ?t) - phases ?t ! i
            = normalize1 (4 * pi * real 0 / real ?n) - normalize1 (4 * pi * real i / real ?n)"
        using i pos e by (simp add: ph del: of_nat_Suc)
      also have "\<dots> = - (4 * pi * real i / real ?n) - TWO_PI * of_int a"
        unfolding a by simp
      also have "real i = real ?n - 1" using e by simp
      also have "- (4 * pi * (real ?n - 1) / real ?n) - TWO_PI * of_int a
                 = ?x + TWO_PI * of_int (- 2 - a)"
        using pos by (simp add: field_simps TWO_PI_def)
      finally show ?thesis by blast
    qed
  qed
  have "real ?n \<ge> 5" using assms(2) by simp
  then have "pi * 5 \<le> pi * real ?n" by (intro mult_left_mono) simp_all
  then have "4 * pi < pi * real ?n" using pi_gt_zero by linarith
  then have lt: "?x < pi" using pos by (simp add: field_simps)
  have gt: "- pi < ?x" using pos
    by (smt (verit) divide_pos_pos pi_gt_zero)
  have "getWindingNumber ?t = Math_round (real (N ?t) * ?x / TWO_PI)"
    using d gt lt by (rule winding_uniform)
  also have "real (N ?t) * ?x / TWO_PI = of_int 2"
    using pos by (simp add: n TWO_PI_def)
  finally show ?thesis by (simp only: Math_round_int)
qed

lemma wrap_down_range: "wrap_down d \<le> pi" "- pi \<le> d \<Longrightarrow> - pi \<le> wrap_down d"
proof -
  show "wrap_down d \<le> pi"
  proof (induction d rule: wrap_down.induct)
    case (1 d)
    then show ?case by (subst wrap_down.simps) simp
  qed
  show "- pi \<le> d \<Longrightarrow> - pi \<le> wrap_down d"
  proof (induction d rule: wrap_down.induct)
    case (1 d)
    show ?case
    proof (cases "pi < d")
      case True
      then have "- pi \<le> d - TWO_PI" by (simp add: TWO_PI_def)
      with 1 True show ?thesis by (subst wrap_down.simps) simp
    next
      case False
      with 1 show ?thesis by (subst wrap_down.simps) simp
    qed
  qed
qed

lemma wrap_down_below: "d < - pi \<Longrightarrow> wrap_down d = d"
  using pi_gt_zero by (intro wrap_down_id) linarith

lemma wrap_up_range: "- pi \<le> wrap_up d" "d \<le> pi \<Longrightarrow> wrap_up d \<le> pi"
proof -
  show "- pi \<le> wrap_up d"
  proof (induction d rule: wrap_up.induct)
    case (1 d)
    then show ?case by (subst wrap_up.simps) simp
  qed
  show "d \<le> pi \<Longrightarrow> wrap_up d \<le> pi"
  proof (induction d rule: wrap_up.induct)
    case (1 d)
    show ?case
    proof (cases "d < - pi")
      case True
      then have "d + TWO_PI \<le> pi" by (simp add: TWO_PI_def)
      with 1 True show ?thesis by (subst wrap_up.simps) simp
    next
      case False
      with 1 show ?thesis by (subst wrap_up.simps) simp
    qed
  qed
qed

lemma wrapped_range: "- pi \<le> wrap_up (wrap_down d)" "wrap_up (wrap_down d) \<le> pi"
  by (simp_all add: wrap_up_range wrap_down_range)

lemma twisted2_four_phases:
  assumes "length (phases s) = N s" "N s = 4"
  shows "phases (fst (setInitialPhases ''twisted2'' s g)) = [0, pi, 0, pi]"
proof -
  have a: "normalize1 pi = pi" by (rule normalize1_id) (simp_all add: TWO_PI_def)
  have "normalize1 (0 + TWO_PI * of_int 1) = normalize1 0" by (rule normalize1_shift)
  then have b: "normalize1 (pi * 2) = 0" by (simp add: TWO_PI_def mult.commute)
  have "normalize1 (pi + TWO_PI * of_int 1) = normalize1 pi" by (rule normalize1_shift)
  then have "normalize1 (pi + 2 * pi) = pi" by (simp add: TWO_PI_def a)
  moreover have "pi + 2 * pi = pi * 3" by simp
  ultimately have c: "normalize1 (pi * 3) = pi" by simp
  have "phases (fst (setInitialPhases ''twisted2'' s g))
        = map (\<lambda>i. normalize1 (4 * pi * real i / real 4)) [0..<4]"
    using setInitialPhases_twisted2 [OF assms(1), of g] by (simp add: assms(2))
  also have "\<dots> = [normalize1 0, normalize1 pi, normalize1 (pi * 2), normalize1 (pi * 3)]"
    by (simp add: upt_rec numeral_eq_Suc)
  finally show ?thesis by (simp add: a b c)
qed

lemma sum_upto_four: "(\<Sum>i<(4::nat). f i) = f 0 + f 1 + f 2 + (f 3 :: real)"
  by (simp add: eval_nat_numeral)

lemma winding_alternating:
  assumes "N s = 4" "phases s = [0, pi, 0, pi]"
  shows "getWindingNumber s = 0"
proof -
  have w: "wrap_up (wrap_down pi) = pi" "wrap_up (wrap_down (- pi)) = - pi"
    by (simp_all add: wrap_down_id wrap_up_id)
  let ?f = "\<lambda>i. wrap_up (wrap_down ([0, pi, 0, pi] ! (Suc i mod 4) - [0, pi, 0, pi] ! i))"
  have f: "?f 0 = pi" "?f 1 = - pi" "?f 2 = pi" "?f 3 = - pi"
    by (simp_all add: w)
  have "getWindingNumber s = Math_round ((\<Sum>i<4. ?f i) / TWO_PI)"
    by (simp add: getWindingNumber_def Let_def fold_add_upt assms)
  also have "(\<Sum>i<4. ?f i) = 0"
    unfolding sum_upto_four f by simp
  finally show ?thesis by (simp add: Math_round_def)
qed

lemma winding_twisted2_four:
  assumes "length (phases s) = N s" "N s = 4"
  shows "getWindingNumber (fst (setInitialPhases ''twisted2'' s g)) = 0"
  by (rule winding_alternating) (simp_all add: assms twisted2_four_phases)

text \<open>
  \<^bold>\<open>C4\<close>, as the code has it. On a ring whose phases are an array of length \<open>N\<close>: for every
  \<open>N \<ge> 4\<close> the winding number right after \<open>setInitialPhases('twisted1')\<close> is \<open>1\<close>; for every
  \<open>N \<ge> 5\<close> the winding number right after \<open>setInitialPhases('twisted2')\<close> is \<open>2\<close>; for \<open>N = 4\<close>
  the phases of \<open>twisted2\<close> are \<open>0, \<pi>, 0, \<pi>\<close>, the neighbour differences \<open>\<pi>\<close> and \<open>-\<pi>\<close> are
  already in \<open>[-\<pi>, \<pi>]\<close> and stay as they are, and the winding number is \<open>0\<close>. Every wrapped
  difference is in \<open>[-\<pi>, \<pi>]\<close>.
\<close>

theorem C4_winding_after_twisted:
  assumes "length (phases s) = N s"
  shows "(4 \<le> N s \<longrightarrow> getWindingNumber (fst (setInitialPhases ''twisted1'' s g)) = 1)
    \<and> (5 \<le> N s \<longrightarrow> getWindingNumber (fst (setInitialPhases ''twisted2'' s g)) = 2)
    \<and> (N s = 4 \<longrightarrow> getWindingNumber (fst (setInitialPhases ''twisted2'' s g)) = 0)
    \<and> (\<forall>d. - pi \<le> wrap_up (wrap_down d) \<and> wrap_up (wrap_down d) \<le> pi)"
proof (intro conjI impI allI)
  assume "4 \<le> N s"
  then have "3 \<le> N s" by simp
  with assms show "getWindingNumber (fst (setInitialPhases ''twisted1'' s g)) = 1"
    by (rule winding_twisted1)
next
  assume "5 \<le> N s"
  with assms show "getWindingNumber (fst (setInitialPhases ''twisted2'' s g)) = 2"
    by (rule winding_twisted2)
next
  assume "N s = 4"
  with assms show "getWindingNumber (fst (setInitialPhases ''twisted2'' s g)) = 0"
    by (rule winding_twisted2_four)
qed (rule wrapped_range)+

theorem C4_winding_after_twisted_witness:
  "getWindingNumber (fst (setInitialPhases ''twisted1'' (fst (constructor 5 (const_rng 0))) (const_rng 0))) = 1
   \<and> getWindingNumber (fst (setInitialPhases ''twisted2'' (fst (constructor 5 (const_rng 0))) (const_rng 0))) = 2"
proof -
  let ?s = "fst (constructor 5 (const_rng 0))"
  have l: "length (phases ?s) = N ?s" by simp
  have n: "4 \<le> N ?s" "5 \<le> N ?s" by simp_all
  from C4_winding_after_twisted [OF l, of "const_rng 0"] n show ?thesis by blast
qed

text \<open>On a ring of four oscillators \<open>setInitialPhases('twisted2')\<close> leaves the phases
  \<open>0, \<pi>, 0, \<pi>\<close>, whose winding number is \<open>0\<close>, not \<open>2\<close>.\<close>

theorem C4_twisted2_four_counterexample:
  "phases (fst (setInitialPhases ''twisted2'' (fst (constructor 4 (const_rng 0))) (const_rng 0)))
     = [0, pi, 0, pi]
   \<and> getWindingNumber
        (fst (setInitialPhases ''twisted2'' (fst (constructor 4 (const_rng 0))) (const_rng 0))) = 0
   \<and> (0 :: int) \<noteq> 2"
  by (simp add: twisted2_four_phases winding_twisted2_four)


section \<open>The experiment\<close>

lemma advance_advance [simp]: "advance a (advance b g) = advance (a + b) g"
  by (simp add: advance_def fun_eq_iff ac_simps)

lemma advance_0 [simp]: "advance 0 g = g"
  by (simp add: advance_def)

lemma setInitialPhases_random:
  "length (phases s) = N s \<Longrightarrow>
   setInitialPhases ''random'' s g
     = (s\<lparr>phases := map (\<lambda>i. normalize1 (g i * TWO_PI)) [0..<N s]\<rparr>, advance (N s) g)"
  by (simp add: setInitialPhases_def normalizePhases_def fold_assign_map fold_update_pointwise)

lemma run_trial_eq:
  "run_trial k n steps g =
     ((step 0.02 ^^ nat steps)
        \<lparr>N = n, phases = map (\<lambda>i. normalize1 (g (n + i) * TWO_PI)) [0..<n],
          frequencies = replicate n 1, dPhases = replicate n 0, K = max 0 k\<rparr>,
      advance (2 * n) g)"
  by (simp add: run_trial_def constructor_eq setCoupling_def setFrequencies_identical
      setInitialPhases_random map_replicate_const mult_2)
    (simp add: advance_def ac_simps)

lemma count_trial_total [simp]: "total (count_trial sim res) = total res"
  by (simp add: count_trial_def Let_def split_def)

lemma count_trial_counters:
  "sync (count_trial sim res)
     = sync res + (if 0.85 < fst (getOrderParameter sim) then 1 else 0)"
  "twisted1 (count_trial sim res)
     = twisted1 res + (if \<not> 0.85 < fst (getOrderParameter sim) \<and> \<bar>getWindingNumber sim\<bar> = 1
                       then 1 else 0)"
  "twisted2 (count_trial sim res)
     = twisted2 res + (if \<not> 0.85 < fst (getOrderParameter sim) \<and> \<bar>getWindingNumber sim\<bar> \<noteq> 1
                          \<and> \<bar>getWindingNumber sim\<bar> = 2 then 1 else 0)"
  "other (count_trial sim res)
     = other res + (if \<not> 0.85 < fst (getOrderParameter sim) \<and> \<bar>getWindingNumber sim\<bar> \<noteq> 1
                       \<and> \<bar>getWindingNumber sim\<bar> \<noteq> 2 then 1 else 0)"
  by (simp_all add: count_trial_def Let_def split_def)

lemma count_trial_sum:
  "sync (count_trial sim res) + twisted1 (count_trial sim res) + twisted2 (count_trial sim res)
     + other (count_trial sim res)
   = sync res + twisted1 res + twisted2 res + other res + 1"
  by (simp add: count_trial_def Let_def split_def)

lemma fold_count_trial_total [simp]:
  "total (fold (\<lambda>j. count_trial (t j)) js res) = total res"
  by (induction js arbitrary: res) simp_all

lemma fold_count_trial_sum:
  "sync (fold (\<lambda>j. count_trial (t j)) js res) + twisted1 (fold (\<lambda>j. count_trial (t j)) js res)
     + twisted2 (fold (\<lambda>j. count_trial (t j)) js res) + other (fold (\<lambda>j. count_trial (t j)) js res)
   = sync res + twisted1 res + twisted2 res + other res + int (length js)"
proof (induction js arbitrary: res)
  case Nil
  show ?case by simp
next
  case (Cons j js)
  show ?case using Cons.IH [of "count_trial (t j) res"] count_trial_sum [of "t j" res] by simp
qed

lemma fold_count_trial_counters:
  "sync (fold (\<lambda>j. count_trial (t j)) js res)
     = sync res + int (length (filter (\<lambda>j. 0.85 < fst (getOrderParameter (t j))) js))"
  "twisted1 (fold (\<lambda>j. count_trial (t j)) js res)
     = twisted1 res + int (length (filter (\<lambda>j. \<not> 0.85 < fst (getOrderParameter (t j))
                                               \<and> \<bar>getWindingNumber (t j)\<bar> = 1) js))"
  "twisted2 (fold (\<lambda>j. count_trial (t j)) js res)
     = twisted2 res + int (length (filter (\<lambda>j. \<not> 0.85 < fst (getOrderParameter (t j))
                                               \<and> \<bar>getWindingNumber (t j)\<bar> \<noteq> 1
                                               \<and> \<bar>getWindingNumber (t j)\<bar> = 2) js))"
  "other (fold (\<lambda>j. count_trial (t j)) js res)
     = other res + int (length (filter (\<lambda>j. \<not> 0.85 < fst (getOrderParameter (t j))
                                            \<and> \<bar>getWindingNumber (t j)\<bar> \<noteq> 1
                                            \<and> \<bar>getWindingNumber (t j)\<bar> \<noteq> 2) js))"
proof (induction js arbitrary: res)
  case Nil
  {
    case 1 show ?case by simp
  next
    case 2 show ?case by simp
  next
    case 3 show ?case by simp
  next
    case 4 show ?case by simp
  }
next
  case (Cons j js)
  {
    case 1 show ?case by (simp add: Cons.IH(1) count_trial_counters(1))
  next
    case 2 show ?case by (simp add: Cons.IH(2) count_trial_counters(2))
  next
    case 3 show ?case by (simp add: Cons.IH(3) count_trial_counters(3))
  next
    case 4 show ?case by (simp add: Cons.IH(4) count_trial_counters(4))
  }
qed

lemma run_loop_fold:
  "0 \<le> i \<Longrightarrow>
   fst (run_loop i numSims k n steps res (advance (2 * n * nat i) g))
     = fold (\<lambda>j. count_trial (trial_final k n steps g j)) [nat i..<nat numSims] res"
proof (induction "nat (numSims - i)" arbitrary: i res)
  case 0
  then have "\<not> i < numSims" by simp
  then show ?case by (subst run_loop.simps) simp
next
  case (Suc m)
  then have lt: "i < numSims" by linarith
  have m: "m = nat (numSims - (i + 1))" using Suc.hyps(2) by linarith
  have i1: "0 \<le> i + 1" using Suc.prems by simp
  have adv: "advance (2 * n) (advance (2 * n * nat i) g) = advance (2 * n * nat (i + 1)) g"
    using Suc.prems by (simp add: nat_add_distrib algebra_simps)
  have "fst (run_loop i numSims k n steps res (advance (2 * n * nat i) g))
        = fst (run_loop (i + 1) numSims k n steps
                 (count_trial (trial_final k n steps g (nat i)) res)
                 (advance (2 * n * nat (i + 1)) g))"
    using lt
    by (subst run_loop.simps)
       (simp add: split_def trial_final_def run_trial_eq [of k n steps "advance (2 * n * nat i) g"]
          adv del: advance_advance)
  also have "\<dots> = fold (\<lambda>j. count_trial (trial_final k n steps g j))
                     [nat (i + 1)..<nat numSims]
                     (count_trial (trial_final k n steps g (nat i)) res)"
    by (rule Suc.hyps(1) [OF m i1])
  also have "\<dots> = fold (\<lambda>j. count_trial (trial_final k n steps g j)) [nat i..<nat numSims] res"
  proof -
    have "nat i < nat numSims" using lt Suc.prems by simp
    then have "[nat i..<nat numSims] = nat i # [nat (i + 1)..<nat numSims]"
      using Suc.prems by (simp add: upt_conv_Cons nat_add_distrib)
    then show ?thesis by simp
  qed
  finally show ?case .
qed

lemma run_fold:
  "fst (run numSims k n steps g)
     = fold (\<lambda>j. count_trial (trial_final k n steps g j)) [0..<nat numSims]
         \<lparr>sync = 0, twisted1 = 0, twisted2 = 0, other = 0, total = numSims\<rparr>"
  using run_loop_fold [of 0 numSims k n steps _ g] by (simp add: run_def)

lemma trial_final_eq:
  "trial_final k n steps g j =
     (step 0.02 ^^ nat steps)
       \<lparr>N = n, phases = map (\<lambda>i. normalize1 (g (2 * n * j + n + i) * TWO_PI)) [0..<n],
         frequencies = replicate n 1, dPhases = replicate n 0, K = max 0 k\<rparr>"
  by (simp add: trial_final_def run_trial_eq advance_def ac_simps)

text \<open>A ring whose oscillators share one phase and one frequency keeps a common phase.\<close>

lemma step_uniform:
  assumes "lengths_ok s" "\<forall>i<N s. phases s ! i = x" "\<forall>i<N s. frequencies s ! i = w"
  shows "\<forall>i<N s. phases (step dt s) ! i = normalize1 (x + w * dt)"
proof (intro allI impI)
  fix i assume i: "i < N s"
  then have n: "0 < N s" by simp
  have a: "phases s ! (Suc i mod N s) = x" "phases s ! ((i + N s - 1) mod N s) = x"
    using assms(2) n by simp_all
  have "length (dPhases s) = N s" using assms(1) by (simp add: lengths_ok_def)
  then have "dPhases (computeDerivatives s) ! i = w"
    using i assms(2,3) a by (simp add: computeDerivatives_dPhases)
  then show "phases (step dt s) ! i = normalize1 (x + w * dt)"
    using i assms(2) by (simp add: step_phases [OF assms(1)])
qed

lemma funpow_step_uniform:
  assumes "lengths_ok s" "\<forall>i<N s. phases s ! i = x" "\<forall>i<N s. frequencies s ! i = w"
  shows "\<exists>y. \<forall>i<N s. phases ((step dt ^^ m) s) ! i = y"
proof (induction m)
  case 0
  show ?case using assms(2) by auto
next
  case (Suc m)
  then obtain y where y: "\<forall>i<N s. phases ((step dt ^^ m) s) ! i = y" by blast
  let ?t = "(step dt ^^ m) s"
  have "\<forall>i<N ?t. phases (step dt ?t) ! i = normalize1 (y + w * dt)"
    by (rule step_uniform) (use assms y in \<open>simp_all add: funpow_step_lengths_ok\<close>)
  then show ?case by auto
qed

lemma trial_final_const_rng:
  assumes "0 < n"
  shows "fst (getOrderParameter (trial_final k n steps (const_rng c) j)) = 1"
proof -
  let ?s = "\<lparr>N = n, phases = map (\<lambda>i. normalize1 (const_rng c (2 * n * j + n + i) * TWO_PI)) [0..<n],
         frequencies = replicate n 1, dPhases = replicate n 0, K = max 0 k\<rparr>"
  have "\<exists>y. \<forall>i<N ?s. phases ((step 0.02 ^^ nat steps) ?s) ! i = y"
    by (rule funpow_step_uniform [where x = "normalize1 (c * TWO_PI)" and w = 1])
      (simp_all add: lengths_ok_def const_rng_def)
  then obtain y where "\<forall>i<N ((step 0.02 ^^ nat steps) ?s). phases ((step 0.02 ^^ nat steps) ?s) ! i = y"
    by auto
  moreover have "0 < N ((step 0.02 ^^ nat steps) ?s)" using assms by simp
  ultimately have "fst (getOrderParameter ((step 0.02 ^^ nat steps) ?s)) = 1"
    by (intro order_parameter_all_equal)
  then show ?thesis by (simp only: trial_final_eq)
qed

text \<open>
  \<^bold>\<open>C2\<close>. For every \<open>numSims \<ge> 0\<close>, every \<open>K\<close>, \<open>N\<close> and \<open>steps\<close> and whatever \<open>Math.random\<close>
  returns, \<open>Experiments.run\<close> returns a record whose \<open>total\<close> is \<open>numSims\<close> and whose four
  counters are non-negative integers with sum \<open>numSims\<close>. Trial \<open>j\<close> is a new ring of \<open>N\<close>
  oscillators with coupling \<open>max 0 K\<close>, all frequencies \<open>1.0\<close> and phases \<open>2\<pi>\<close> times fresh
  draws, after \<open>steps\<close> Euler steps of \<open>dt = 0.02\<close>; with \<open>r\<close> and \<open>q\<close> measured on it, \<open>sync\<close>
  counts the trials with \<open>r > 0.85\<close>, \<open>twisted1\<close> those of the others with \<open>|q| = 1\<close>,
  \<open>twisted2\<close> those of the others with \<open>|q| = 2\<close>, and \<open>other\<close> the rest.
\<close>

theorem C2_run_counts:
  assumes "0 \<le> numSims"
  shows "total (fst (run numSims k n steps g)) = numSims
    \<and> sync (fst (run numSims k n steps g)) + twisted1 (fst (run numSims k n steps g))
        + twisted2 (fst (run numSims k n steps g)) + other (fst (run numSims k n steps g))
      = numSims
    \<and> 0 \<le> sync (fst (run numSims k n steps g)) \<and> 0 \<le> twisted1 (fst (run numSims k n steps g))
    \<and> 0 \<le> twisted2 (fst (run numSims k n steps g)) \<and> 0 \<le> other (fst (run numSims k n steps g))
    \<and> sync (fst (run numSims k n steps g))
        = int (length (filter (\<lambda>j. 0.85 < fst (getOrderParameter (trial_final k n steps g j)))
                         [0..<nat numSims]))
    \<and> twisted1 (fst (run numSims k n steps g))
        = int (length (filter (\<lambda>j. \<not> 0.85 < fst (getOrderParameter (trial_final k n steps g j))
                                   \<and> \<bar>getWindingNumber (trial_final k n steps g j)\<bar> = 1)
                         [0..<nat numSims]))
    \<and> twisted2 (fst (run numSims k n steps g))
        = int (length (filter (\<lambda>j. \<not> 0.85 < fst (getOrderParameter (trial_final k n steps g j))
                                   \<and> \<bar>getWindingNumber (trial_final k n steps g j)\<bar> = 2)
                         [0..<nat numSims]))
    \<and> other (fst (run numSims k n steps g))
        = int (length (filter (\<lambda>j. \<not> 0.85 < fst (getOrderParameter (trial_final k n steps g j))
                                   \<and> \<bar>getWindingNumber (trial_final k n steps g j)\<bar> \<noteq> 1
                                   \<and> \<bar>getWindingNumber (trial_final k n steps g j)\<bar> \<noteq> 2)
                         [0..<nat numSims]))
    \<and> (\<forall>j. trial_final k n steps g j =
           (step 0.02 ^^ nat steps)
             \<lparr>N = n, phases = map (\<lambda>i. normalize1 (g (2 * n * j + n + i) * TWO_PI)) [0..<n],
               frequencies = replicate n 1, dPhases = replicate n 0, K = max 0 k\<rparr>)"
proof -
  let ?res = "fst (run numSims k n steps g)"
  let ?t = "trial_final k n steps g"
  let ?js = "[0..<nat numSims]"
  have t: "total ?res = numSims" by (simp add: run_fold)
  have "sync ?res + twisted1 ?res + twisted2 ?res + other ?res = int (length ?js)"
    unfolding run_fold by (simp only: fold_count_trial_sum) simp
  then have sum: "sync ?res + twisted1 ?res + twisted2 ?res + other ?res = numSims"
    using assms by simp
  have c1: "sync ?res = int (length (filter (\<lambda>j. 0.85 < fst (getOrderParameter (?t j))) ?js))"
    unfolding run_fold by (simp only: fold_count_trial_counters) simp
  have c2: "twisted1 ?res
        = int (length (filter (\<lambda>j. \<not> 0.85 < fst (getOrderParameter (?t j))
                                   \<and> \<bar>getWindingNumber (?t j)\<bar> = 1) ?js))"
    unfolding run_fold by (simp only: fold_count_trial_counters) simp
  have e: "(\<bar>q\<bar> \<noteq> 1 \<and> \<bar>q\<bar> = 2) = (\<bar>q\<bar> = 2)" for q :: int by auto
  have c3: "twisted2 ?res
        = int (length (filter (\<lambda>j. \<not> 0.85 < fst (getOrderParameter (?t j))
                                   \<and> \<bar>getWindingNumber (?t j)\<bar> = 2) ?js))"
    unfolding run_fold by (simp only: fold_count_trial_counters e) simp
  have c4: "other ?res
        = int (length (filter (\<lambda>j. \<not> 0.85 < fst (getOrderParameter (?t j))
                                   \<and> \<bar>getWindingNumber (?t j)\<bar> \<noteq> 1
                                   \<and> \<bar>getWindingNumber (?t j)\<bar> \<noteq> 2) ?js))"
    unfolding run_fold by (simp only: fold_count_trial_counters) simp
  have nn: "0 \<le> sync ?res" "0 \<le> twisted1 ?res" "0 \<le> twisted2 ?res" "0 \<le> other ?res"
    by (simp_all only: c1 c2 c3 c4 of_nat_0_le_iff)
  have tf: "\<forall>j. ?t j =
           (step 0.02 ^^ nat steps)
             \<lparr>N = n, phases = map (\<lambda>i. normalize1 (g (2 * n * j + n + i) * TWO_PI)) [0..<n],
               frequencies = replicate n 1, dPhases = replicate n 0, K = max 0 k\<rparr>"
    by (simp only: trial_final_eq) simp
  from t sum nn c1 c2 c3 c4 tf show ?thesis by (intro conjI)
qed

theorem C2_run_counts_witness:
  "fst (run 100 3 16 2000 (const_rng 0))
     = \<lparr>sync = 100, twisted1 = 0, twisted2 = 0, other = 0, total = 100\<rparr>"
proof -
  let ?res = "fst (run 100 3 16 2000 (const_rng 0))"
  have r: "fst (getOrderParameter (trial_final 3 16 2000 (const_rng 0) j)) = 1" for j
    by (rule trial_final_const_rng) simp
  have h: "(0::int) \<le> 100" by simp
  note c = C2_run_counts [OF h, of 3 16 2000 "const_rng 0", unfolded r]
  have "total ?res = 100" using c by blast
  moreover have "sync ?res = 100" using c by simp
  moreover have "twisted1 ?res = 0" using c by simp
  moreover have "twisted2 ?res = 0" using c by simp
  moreover have "other ?res = 0" using c by simp
  ultimately show ?thesis by (cases ?res) simp
qed

end
